theory Spec2Isabelle
  imports Complex_Main
begin

section \<open>Errors and Python list primitives\<close>

text \<open>
  The routines of \<^verbatim>\<open>epstan/util.py\<close> signal failure by raising. Every raise is a value
  here: a result is \<open>Inl e\<close> for the exception \<open>e\<close> and \<open>Inr v\<close> for a returned value.
\<close>

datatype error = ValueError | IndexError | LinAlgError | ZeroDivisionError | FloatNonFinite

definition bindE :: "error + 'a \<Rightarrow> ('a \<Rightarrow> error + 'b) \<Rightarrow> error + 'b" where
  "bindE m f = (case m of Inl e \<Rightarrow> Inl e | Inr v \<Rightarrow> f v)"

text \<open>\<^verbatim>\<open>xs[i]\<close>, \<^verbatim>\<open>xs[i] = v\<close>, \<^verbatim>\<open>xs[i] += a\<close> and \<^verbatim>\<open>xs.pop(i)\<close> for an index \<open>i \<ge> 0\<close>:
  out of range they raise IndexError.\<close>

definition py_get :: "'a list \<Rightarrow> nat \<Rightarrow> error + 'a" where
  "py_get xs i = (if i < length xs then Inr (xs ! i) else Inl IndexError)"

definition py_set :: "'a list \<Rightarrow> nat \<Rightarrow> 'a \<Rightarrow> error + 'a list" where
  "py_set xs i v = (if i < length xs then Inr (xs[i := v]) else Inl IndexError)"

definition py_add_at :: "int list \<Rightarrow> nat \<Rightarrow> int \<Rightarrow> error + int list" where
  "py_add_at xs i a = bindE (py_get xs i) (\<lambda>x. py_set xs i (x + a))"

definition py_pop :: "'a list \<Rightarrow> nat \<Rightarrow> error + 'a list" where
  "py_pop xs i = (if i < length xs then Inr (take i xs @ drop (Suc i) xs) else Inl IndexError)"

text \<open>\<^verbatim>\<open>min(xs)\<close> raises ValueError on an empty list; \<^verbatim>\<open>xs.index(v)\<close> is the first
  position of \<open>v\<close> and raises ValueError when \<open>v\<close> does not occur.\<close>

definition py_min :: "int list \<Rightarrow> error + int" where
  "py_min xs = (if xs = [] then Inl ValueError else Inr (min_list xs))"

fun py_index :: "'a list \<Rightarrow> 'a \<Rightarrow> error + nat" where
  "py_index [] v = Inl ValueError"
| "py_index (x # xs) v =
     (if x = v then Inr 0 else bindE (py_index xs v) (\<lambda>i. Inr (Suc i)))"

section \<open>Machine numbers\<close>

text \<open>
  A numpy array of integers holds 64-bit signed entries, and the arithmetic of numpy on
  them wraps around; the within-site indexes are stored in a 32-bit array. Python's own
  ints are unbounded. \<open>wrap64 x\<close> is the 64-bit value that numpy keeps of the exact
  result \<open>x\<close>.
\<close>

definition wrap64 :: "int \<Rightarrow> int" where
  "wrap64 x = (x + 2 ^ 63) mod 2 ^ 64 - 2 ^ 63"

definition wrap32 :: "int \<Rightarrow> int" where
  "wrap32 x = (x + 2 ^ 31) mod 2 ^ 32 - 2 ^ 31"

text \<open>
  A float of numpy is an IEEE binary64 number. \<open>fl64 x\<close> is the binary64 number nearest
  to the real \<open>x\<close>, the one with the even significand on a tie: the significand has 53
  bits, and the exponent of the last bit is at least \<open>-1074\<close>. Overflow to infinity is left
  out: \<open>fl64\<close> is applied to integers of 64 bits, to quotients of two of them, to
  fractions between 0 and 1 and to the difference of 1 and a binary64 number, which all
  stay far below the largest binary64 number.
\<close>

definition round_even :: "real \<Rightarrow> int" where
  "round_even q =
     (let f = \<lfloor>q\<rfloor>; r = q - of_int f in
      if r < 1 / 2 then f else if 1 / 2 < r then f + 1 else if even f then f else f + 1)"

definition fl64 :: "real \<Rightarrow> real" where
  "fl64 x =
     (if x = 0 then 0
      else let e = max (\<lfloor>log 2 \<bar>x\<bar>\<rfloor> - 52) (- 1074)
           in of_int (round_even (x / 2 powi e)) * 2 powi e)"

text \<open>
  A float is a finite number, an infinity or \<^verbatim>\<open>nan\<close>. Numpy does not raise when a float
  is divided by zero: it goes on with \<^verbatim>\<open>inf\<close> or \<^verbatim>\<open>nan\<close>. The operations below are those
  of IEEE arithmetic on these values, exact on finite operands; every zero that the
  routines divide by is a difference or a sum of squares and so the positive zero.
  A comparison with \<^verbatim>\<open>nan\<close> is false, also the comparison of \<^verbatim>\<open>nan\<close> with itself.
\<close>

datatype fnum = Fin real | PInf | NInf | NaN

fun fneg :: "fnum \<Rightarrow> fnum" where
  "fneg (Fin x) = Fin (- x)"
| "fneg PInf = NInf"
| "fneg NInf = PInf"
| "fneg NaN = NaN"

fun fadd :: "fnum \<Rightarrow> fnum \<Rightarrow> fnum" where
  "fadd (Fin x) (Fin y) = Fin (x + y)"
| "fadd NaN b = NaN"
| "fadd a NaN = NaN"
| "fadd PInf NInf = NaN"
| "fadd NInf PInf = NaN"
| "fadd PInf b = PInf"
| "fadd NInf b = NInf"
| "fadd a PInf = PInf"
| "fadd a NInf = NInf"

definition fsub :: "fnum \<Rightarrow> fnum \<Rightarrow> fnum" where
  "fsub a b = fadd a (fneg b)"

text \<open>The infinity with the sign of the finite number \<open>x\<close> times the sign \<open>s\<close>; \<^verbatim>\<open>nan\<close> for
  zero.\<close>

definition signed_inf :: "real \<Rightarrow> bool \<Rightarrow> fnum" where
  "signed_inf x positive =
     (if x = 0 then NaN else if (0 < x) = positive then PInf else NInf)"

fun fmul :: "fnum \<Rightarrow> fnum \<Rightarrow> fnum" where
  "fmul (Fin x) (Fin y) = Fin (x * y)"
| "fmul NaN b = NaN"
| "fmul a NaN = NaN"
| "fmul (Fin x) PInf = signed_inf x True"
| "fmul (Fin x) NInf = signed_inf x False"
| "fmul PInf (Fin y) = signed_inf y True"
| "fmul NInf (Fin y) = signed_inf y False"
| "fmul PInf PInf = PInf"
| "fmul PInf NInf = NInf"
| "fmul NInf PInf = NInf"
| "fmul NInf NInf = PInf"

fun fdiv :: "fnum \<Rightarrow> fnum \<Rightarrow> fnum" where
  "fdiv (Fin x) (Fin y) = (if y = 0 then signed_inf x True else Fin (x / y))"
| "fdiv NaN b = NaN"
| "fdiv a NaN = NaN"
| "fdiv (Fin x) b = Fin 0"
| "fdiv PInf (Fin y) = (if 0 \<le> y then PInf else NInf)"
| "fdiv NInf (Fin y) = (if 0 \<le> y then NInf else PInf)"
| "fdiv a b = NaN"

fun flt :: "fnum \<Rightarrow> fnum \<Rightarrow> bool" where
  "flt (Fin x) (Fin y) = (x < y)"
| "flt NaN b = False"
| "flt a NaN = False"
| "flt PInf b = False"
| "flt a NInf = False"
| "flt a PInf = True"
| "flt NInf b = True"

definition fgt :: "fnum \<Rightarrow> fnum \<Rightarrow> bool" where
  "fgt a b = flt b a"

definition feq :: "fnum \<Rightarrow> fnum \<Rightarrow> bool" where
  "feq a b = (a \<noteq> NaN \<and> a = b)"

definition is_finite :: "fnum \<Rightarrow> bool" where
  "is_finite a = (case a of Fin x \<Rightarrow> True | _ \<Rightarrow> False)"

section \<open>The group-to-site distributor\<close>

text \<open>
  The argument \<^verbatim>\<open>Nj\<close> of \<^verbatim>\<open>distribute_groups\<close> is a Python int or a numpy array of
  64-bit integers. An array is its shape and its entries in row-major order; \<open>wf_ndarray\<close>
  says that the two fit. What numpy computes on the array wraps around at 64 bits
  (\<^verbatim>\<open>Nj.sum()\<close>, \<^verbatim>\<open>np.cumsum(Nj)\<close>, \<^verbatim>\<open>Nj[:-1]+Nj[1:]\<close>); what the code computes on the
  Python lists made by \<^verbatim>\<open>tolist()\<close> does not.
\<close>

datatype ndarray = NdArray (shape: "nat list") (flat: "int list")

datatype nj_arg = NjInt int | NjArray ndarray

definition wf_ndarray :: "ndarray \<Rightarrow> bool" where
  "wf_ndarray a = (length (flat a) = prod_list (shape a))"

fun wf_nj :: "nj_arg \<Rightarrow> bool" where
  "wf_nj (NjInt n) = True"
| "wf_nj (NjArray a) = wf_ndarray a"

text \<open>The three results of \<^verbatim>\<open>distribute_groups\<close>. Arrays made by \<^verbatim>\<open>np.empty\<close> start
  uninitialised: a cell is \<open>None\<close> until the code writes it.\<close>

record assignment =
  Nk :: "int option list"
  Nj_k_or_Nk_j :: "int list option"
  j_ind_k :: "int option list option"

subsection \<open>Many groups per site: merging\<close>

text \<open>\<^verbatim>\<open>(Nj[:-1]+Nj[1:]).tolist()\<close>\<close>

definition adjacent_sums :: "int list \<Rightarrow> int list" where
  "adjacent_sums xs = map2 (\<lambda>a b. wrap64 (a + b)) (butlast xs) (tl xs)"

text \<open>One pass of the body of \<^verbatim>\<open>for _ in range(J-K)\<close> on the three Python lists
  \<^verbatim>\<open>Nk\<close>, \<^verbatim>\<open>Njd\<close> and \<^verbatim>\<open>Nj_k\<close>, statement by statement. The entries are Python ints
  here, so the additions are exact.\<close>

definition merge_step ::
  "int list \<times> int list \<times> int list \<Rightarrow> error + (int list \<times> int list \<times> int list)" where
  "merge_step s = (case s of (Nk0, Njd0, Nj_k0) \<Rightarrow>
     bindE (py_min Njd0) (\<lambda>m.
     bindE (py_index Njd0 m) (\<lambda>ind.
     bindE (if ind + 1 < length Njd0
            then bindE (py_get Nk0 ind) (\<lambda>a. py_add_at Njd0 (ind + 1) a)
            else Inr Njd0) (\<lambda>Njd1.
     bindE (if ind > 0
            then bindE (py_get Nk0 (ind + 1)) (\<lambda>a. py_add_at Njd1 (ind - 1) a)
            else Inr Njd1) (\<lambda>Njd2.
     bindE (py_get Njd2 ind) (\<lambda>v.
     bindE (py_set Nk0 ind v) (\<lambda>Nk1.
     bindE (py_pop Nk1 (ind + 1)) (\<lambda>Nk2.
     bindE (py_pop Njd2 ind) (\<lambda>Njd3.
     bindE (py_get Nj_k0 (ind + 1)) (\<lambda>c.
     bindE (py_add_at Nj_k0 ind c) (\<lambda>Nj_k1.
     bindE (py_pop Nj_k1 (ind + 1)) (\<lambda>Nj_k2.
     Inr (Nk2, Njd3, Nj_k2)))))))))))))"

fun merge_loop ::
  "nat \<Rightarrow> int list \<times> int list \<times> int list \<Rightarrow> error + (int list \<times> int list \<times> int list)" where
  "merge_loop 0 s = Inr s"
| "merge_loop (Suc n) s = bindE (merge_step s) (merge_loop n)"

text \<open>\<^verbatim>\<open>np.concatenate(([0], np.cumsum(xs)))\<close>, the running sum kept in 64 bits.\<close>

fun cumsum_from :: "int \<Rightarrow> int list \<Rightarrow> int list" where
  "cumsum_from a [] = []"
| "cumsum_from a (x # xs) = wrap64 (a + x) # cumsum_from (wrap64 (a + x)) xs"

definition lim_of :: "int list \<Rightarrow> int list" where
  "lim_of xs = 0 # cumsum_from 0 xs"

text \<open>\<^verbatim>\<open>a[lo:hi] = v\<close> on a one-dimensional array: a negative bound counts from the end,
  both bounds are clipped to the array, and an empty slice writes nothing.\<close>

definition slice_bound :: "nat \<Rightarrow> int \<Rightarrow> nat" where
  "slice_bound len i = (if i < 0 then nat (max 0 (i + int len)) else min (nat i) len)"

definition slice_assign :: "'a option list \<Rightarrow> int \<Rightarrow> int \<Rightarrow> 'a \<Rightarrow> 'a option list" where
  "slice_assign xs lo hi v =
     map (\<lambda>(i, x). if slice_bound (length xs) lo \<le> i \<and> i < slice_bound (length xs) hi
                    then Some v else x)
         (enumerate 0 xs)"

text \<open>The inner loop \<^verbatim>\<open>for ji in range(Nj_k[k])\<close> from \<open>ji\<close> on, and the outer loop
  \<^verbatim>\<open>for k in range(K)\<close> from \<open>k\<close> on. The position \<^verbatim>\<open>ki\<close> is at most the number of
  groups, the length of an array, and the index \<^verbatim>\<open>ji\<close> is stored in a 32-bit cell.\<close>

fun fill_site ::
  "int list \<Rightarrow> int \<Rightarrow> nat \<Rightarrow> nat \<Rightarrow> int option list \<Rightarrow> error + int option list" where
  "fill_site j_lim klim 0 ji out = Inr out"
| "fill_site j_lim klim (Suc c) ji out =
     (let ki = nat (int ji + klim) in
      bindE (py_get j_lim ki) (\<lambda>lo.
      bindE (py_get j_lim (ki + 1)) (\<lambda>hi.
      fill_site j_lim klim c (Suc ji) (slice_assign out lo hi (wrap32 (int ji))))))"

fun fill_sites ::
  "int list \<Rightarrow> int list \<Rightarrow> int list \<Rightarrow> nat \<Rightarrow> nat \<Rightarrow> int option list \<Rightarrow> error + int option list" where
  "fill_sites j_lim k_lim Nj_k1 0 k out = Inr out"
| "fill_sites j_lim k_lim Nj_k1 (Suc c) k out =
     bindE (py_get Nj_k1 k) (\<lambda>cnt.
     bindE (py_get k_lim k) (\<lambda>klim.
     bindE (fill_site j_lim klim (nat cnt) 0 out) (\<lambda>out1.
     fill_sites j_lim k_lim Nj_k1 c (Suc k) out1)))"

text \<open>The merge case, with the total \<^verbatim>\<open>N = Nj.sum()\<close> that \<^verbatim>\<open>distribute_groups\<close> computed
  before. \<^verbatim>\<open>np.empty(N, dtype=np.int32)\<close> raises ValueError for a negative \<open>N\<close>.\<close>

definition merge_groups :: "int \<Rightarrow> int \<Rightarrow> int list \<Rightarrow> int \<Rightarrow> error + assignment" where
  "merge_groups J K Nj N =
     (let j_lim = lim_of Nj in
      bindE (merge_loop (nat (J - K)) (Nj, adjacent_sums Nj, replicate (nat J) 1))
        (\<lambda>(Nk1, Njd1, Nj_k1).
      if N < 0 then Inl ValueError
      else
        bindE (fill_sites j_lim (lim_of Nj_k1) Nj_k1 (nat K) 0 (replicate (nat N) None))
          (\<lambda>ind. Inr \<lparr>Nk = map Some Nk1, Nj_k_or_Nk_j = Some Nj_k1, j_ind_k = Some ind\<rparr>)))"

subsection \<open>Many sites per group: splitting\<close>

text \<open>\<^verbatim>\<open>Nj2.argmax()\<close>: the first position of the largest entry; numpy raises ValueError
  on an empty array. \<^verbatim>\<open>Nj2\<close> holds binary64 floats: \<^verbatim>\<open>Nj.astype(np.float)\<close> rounds every
  group size to a float, and \<^verbatim>\<open>Nj[cur_max]/ppg[cur_max]\<close> converts both integers to floats
  and rounds their quotient (\<^verbatim>\<open>np.float\<close> is the builtin float, as in the numpy releases
  the code was written for).\<close>

fun max_list :: "real list \<Rightarrow> real" where
  "max_list [] = 0"
| "max_list [x] = x"
| "max_list (x # y # ys) = max x (max_list (y # ys))"

definition np_argmax :: "real list \<Rightarrow> error + nat" where
  "np_argmax xs = (if xs = [] then Inl ValueError else py_index xs (max_list xs))"

definition int_to_float :: "int \<Rightarrow> real" where
  "int_to_float a = fl64 (of_int a)"

definition true_divide :: "int \<Rightarrow> int \<Rightarrow> real" where
  "true_divide a p = fl64 (int_to_float a / int_to_float p)"

text \<open>The loop \<^verbatim>\<open>for _ in range(K-J)\<close> on the arrays \<^verbatim>\<open>ppg\<close> and \<^verbatim>\<open>Nj2\<close>. An entry of
  \<^verbatim>\<open>ppg\<close> starts at 1 and grows by 1, so the divisor is at least 2.\<close>

fun split_loop ::
  "nat \<Rightarrow> int list \<Rightarrow> int list \<times> real list \<Rightarrow> error + (int list \<times> real list)" where
  "split_loop 0 Nj s = Inr s"
| "split_loop (Suc c) Nj s = (case s of (ppg, Nj2) \<Rightarrow>
     bindE (np_argmax Nj2) (\<lambda>cur_max.
     bindE (py_get ppg cur_max) (\<lambda>p0.
     bindE (py_set ppg cur_max (wrap64 (p0 + 1))) (\<lambda>ppg1.
     bindE (py_get Nj cur_max) (\<lambda>a.
     bindE (py_get ppg1 cur_max) (\<lambda>p.
     bindE (py_set Nj2 cur_max (true_divide a p)) (\<lambda>Nj21.
     split_loop c Nj (ppg1, Nj21))))))))"

text \<open>\<^verbatim>\<open>Nj//ppg\<close> and \<^verbatim>\<open>Nj%ppg\<close> on 64-bit integers: the quotient is rounded down, and
  numpy gives 0 for a zero divisor.\<close>

definition floor_divide :: "int \<Rightarrow> int \<Rightarrow> int" where
  "floor_divide a p = (if p = 0 then 0 else wrap64 (a div p))"

definition remainder :: "int \<Rightarrow> int \<Rightarrow> int" where
  "remainder a p = (if p = 0 then 0 else a mod p)"

text \<open>The inner loop \<^verbatim>\<open>for kj in range(ppg[j])\<close> from \<open>kj\<close> on and the outer loop
  \<^verbatim>\<open>for j in range(J)\<close> from \<open>j\<close> on; the state is the array \<^verbatim>\<open>Nk\<close> and the counter
  \<^verbatim>\<open>k\<close>.\<close>

fun fill_parts ::
  "int list \<Rightarrow> int list \<Rightarrow> nat \<Rightarrow> nat \<Rightarrow> nat \<Rightarrow> int option list \<times> nat
     \<Rightarrow> error + (int option list \<times> nat)" where
  "fill_parts Nj2 rem j 0 kj s = Inr s"
| "fill_parts Nj2 rem j (Suc c) kj s = (case s of (Nk0, k) \<Rightarrow>
     bindE (py_get rem j) (\<lambda>r.
     bindE (py_get Nj2 j) (\<lambda>q.
     bindE (py_set Nk0 k (Some (if int kj < r then wrap64 (q + 1) else q))) (\<lambda>Nk1.
     fill_parts Nj2 rem j c (Suc kj) (Nk1, Suc k)))))"

fun fill_groups ::
  "int list \<Rightarrow> int list \<Rightarrow> int list \<Rightarrow> nat \<Rightarrow> nat \<Rightarrow> int option list \<times> nat
     \<Rightarrow> error + (int option list \<times> nat)" where
  "fill_groups ppg Nj2 rem 0 j s = Inr s"
| "fill_groups ppg Nj2 rem (Suc c) j s =
     bindE (py_get ppg j) (\<lambda>p.
     bindE (fill_parts Nj2 rem j (nat p) 0 s) (\<lambda>s1.
     fill_groups ppg Nj2 rem c (Suc j) s1))"

definition split_groups :: "int \<Rightarrow> int \<Rightarrow> int list \<Rightarrow> error + assignment" where
  "split_groups J K Nj =
     bindE (split_loop (nat (K - J)) Nj (replicate (nat J) 1, map int_to_float Nj)) (\<lambda>(ppg, Nj2f).
     let Nj2 = map2 floor_divide Nj ppg;
         rem = map2 remainder Nj ppg in
     bindE (fill_groups ppg Nj2 rem (nat J) 0 (replicate (nat K) None, 0)) (\<lambda>(Nk1, k).
     Inr \<lparr>Nk = Nk1, Nj_k_or_Nk_j = Some ppg, j_ind_k = None\<rparr>))"

subsection \<open>The entry point\<close>

text \<open>The argument check of \<^verbatim>\<open>distribute_groups\<close>: an int \<open>n\<close> becomes
  \<^verbatim>\<open>n*np.ones(J)\<close> (and \<^verbatim>\<open>np.ones\<close> raises ValueError for a negative length), an array
  must have the shape \<open>(J,)\<close>. Then every entry must be positive, and the total
  \<^verbatim>\<open>N = Nj.sum()\<close> is taken in 64 bits.\<close>

definition check_Nj :: "int \<Rightarrow> nj_arg \<Rightarrow> error + int list" where
  "check_Nj J Nj =
     (case Nj of
        NjInt n \<Rightarrow> if J < 0 then Inl ValueError else Inr (replicate (nat J) n)
      | NjArray a \<Rightarrow>
          if length (shape a) \<noteq> 1 \<or> int (hd (shape a)) \<noteq> J then Inl ValueError
          else Inr (flat a))"

definition distribute_groups :: "int \<Rightarrow> int \<Rightarrow> nj_arg \<Rightarrow> error + assignment" where
  "distribute_groups J K Nj =
     bindE (check_Nj J Nj) (\<lambda>Nj1.
     if list_ex (\<lambda>x. x \<le> 0) Nj1 then Inl ValueError
     else
       let N = wrap64 (sum_list Nj1) in
       if K < 2 then Inl ValueError
       else if K < J then merge_groups J K Nj1 N
       else if K = J then Inr \<lparr>Nk = map Some Nj1, Nj_k_or_Nk_j = None, j_ind_k = None\<rparr>
       else if K \<le> N then split_groups J K Nj1
       else Inl ValueError)"

subsection \<open>The merging process as the specification words it\<close>

text \<open>
  The specification describes the merge case as a process on the current list of groups:
  repeatedly replace the adjacent pair with the smallest combined size, the first such
  pair on a tie, by one merged group, until \<open>K\<close> groups remain. The definitions below
  follow these words, not the code; a group is its size and the number of original
  groups folded into it.
\<close>

type_synonym group = "int \<times> int"

definition ref_pair_size :: "group list \<Rightarrow> nat \<Rightarrow> int" where
  "ref_pair_size gs i = fst (gs ! i) + fst (gs ! Suc i)"

definition ref_smallest_pair :: "group list \<Rightarrow> nat option" where
  "ref_smallest_pair gs =
     find (\<lambda>i. list_all (\<lambda>j. ref_pair_size gs i \<le> ref_pair_size gs j) [0..<length gs - 1])
       [0..<length gs - 1]"

definition ref_merge_pair :: "nat \<Rightarrow> group list \<Rightarrow> group list" where
  "ref_merge_pair i gs =
     take i gs @ (fst (gs ! i) + fst (gs ! Suc i), snd (gs ! i) + snd (gs ! Suc i)) # drop (i + 2) gs"

function ref_merge_until :: "nat \<Rightarrow> group list \<Rightarrow> group list" where
  "ref_merge_until K gs =
     (if length gs \<le> K then gs
      else case ref_smallest_pair gs of
             None \<Rightarrow> gs
           | Some i \<Rightarrow> ref_merge_until K (ref_merge_pair i gs))"
  by pat_completeness auto
termination
proof (relation "measure (\<lambda>(K, gs). length gs)")
  show "wf (measure (\<lambda>(K, gs). length gs))" by simp
next
  fix K :: nat and gs :: "group list" and i
  assume "ref_smallest_pair gs = Some i"
  then have "Suc i < length gs" by (auto simp: ref_smallest_pair_def find_Some_iff)
  then show "((K, ref_merge_pair i gs), (K, gs)) \<in> measure (\<lambda>(K, gs). length gs)"
    by (simp add: ref_merge_pair_def)
qed

declare ref_merge_until.simps [simp del]


subsection \<open>Valid requests\<close>

text \<open>
  The four conditions under which the specification calls a partitioning request
  invalid. The group sizes an argument stands for are the entries of the array, or the
  constant vector of length \<open>J\<close> for an int (no entries when \<open>J\<close> is negative).
\<close>

definition invalid_shape :: "int \<Rightarrow> nj_arg \<Rightarrow> bool" where
  "invalid_shape J Nj = (case Nj of NjInt n \<Rightarrow> False | NjArray a \<Rightarrow> J < 0 \<or> shape a \<noteq> [nat J])"

definition group_sizes :: "int \<Rightarrow> nj_arg \<Rightarrow> int list" where
  "group_sizes J Nj = (case Nj of NjInt n \<Rightarrow> replicate (nat J) n | NjArray a \<Rightarrow> flat a)"

definition invalid_request :: "int \<Rightarrow> int \<Rightarrow> nj_arg \<Rightarrow> bool" where
  "invalid_request J K Nj =
     (invalid_shape J Nj \<or> list_ex (\<lambda>x. x \<le> 0) (group_sizes J Nj) \<or> K < 2
      \<or> sum_list (group_sizes J Nj) < K)"

subsection \<open>Auxiliary notions for the proofs\<close>

text \<open>The exact sums of the adjacent pairs of a list, the first position of a value in a
  list, and a list with the entries at \<open>i\<close> and \<open>i + 1\<close> replaced by their sum.\<close>

definition pair_sums :: "int list \<Rightarrow> int list" where
  "pair_sums xs = map2 (+) (butlast xs) (tl xs)"

definition first_index :: "'a list \<Rightarrow> 'a \<Rightarrow> nat" where
  "first_index xs v = length (takeWhile (\<lambda>x. x \<noteq> v) xs)"

definition merge_at :: "nat \<Rightarrow> int list \<Rightarrow> int list" where
  "merge_at i xs = take i xs @ (xs ! i + xs ! Suc i) # drop (i + 2) xs"

text \<open>The sample counts that the loops of the split case write for one group with
  quotient \<open>q\<close>, remainder \<open>r\<close> and \<open>p\<close> parts, and the positions in \<^verbatim>\<open>Nk\<close> of the sites
  carved out of group \<open>j\<close>: the counter \<^verbatim>\<open>k\<close> runs through the groups in order, so group
  \<open>j\<close> owns the positions from \<^verbatim>\<open>sum(ppg[:j])\<close> up to \<^verbatim>\<open>sum(ppg[:j+1])\<close>.\<close>

definition parts_of :: "int \<Rightarrow> int \<Rightarrow> int \<Rightarrow> int list" where
  "parts_of q r p = map (\<lambda>kj. if int kj < r then q + 1 else q) [0..<nat p]"

definition sites_of_group :: "int list \<Rightarrow> nat \<Rightarrow> nat list" where
  "sites_of_group ppg j = [nat (sum_list (take j ppg))..<nat (sum_list (take (Suc j) ppg))]"

definition split_counts :: "int list \<Rightarrow> int list \<Rightarrow> int list" where
  "split_counts ppg Nj =
     concat (map (\<lambda>j. parts_of (Nj ! j div ppg ! j) (Nj ! j mod ppg ! j) (ppg ! j)) [0..<length ppg])"

section \<open>Dense arrays of reals\<close>

text \<open>
  The numerical routines work on numpy arrays of 64-bit floats. A finite float is an exact
  real number here, a vector is a list and a two-dimensional array is the list of its
  rows: the theorems are about the arithmetic the routines perform on finite numbers, not
  about its rounding. Where a routine divides by a number that can be zero, its results are
  values of \<open>fnum\<close>, which has the infinities and \<^verbatim>\<open>nan\<close>.
\<close>

type_synonym vec = "real list"

type_synonym mat = "real list list"

definition nrows :: "mat \<Rightarrow> nat" where
  "nrows A = length A"

definition ncols :: "mat \<Rightarrow> nat" where
  "ncols A = (case A of [] \<Rightarrow> 0 | r # _ \<Rightarrow> length r)"

definition mat_of_fun :: "nat \<Rightarrow> nat \<Rightarrow> (nat \<Rightarrow> nat \<Rightarrow> real) \<Rightarrow> mat" where
  "mat_of_fun n m f = map (\<lambda>i. map (\<lambda>j. f i j) [0..<m]) [0..<n]"

definition is_matrix :: "nat \<Rightarrow> nat \<Rightarrow> mat \<Rightarrow> bool" where
  "is_matrix n m A = (length A = n \<and> list_all (\<lambda>r. length r = m) A)"

definition same_shape :: "mat \<Rightarrow> mat \<Rightarrow> bool" where
  "same_shape A B = (map length A = map length B)"

text \<open>\<^verbatim>\<open>A.T\<close>, \<^verbatim>\<open>np.trace(A)\<close>, \<^verbatim>\<open>np.sum(A)\<close>, \<^verbatim>\<open>np.sum(A, axis=0)\<close> for an array with \<open>d\<close>
  columns, \<^verbatim>\<open>A.dot(B)\<close>, and the elementwise \<^verbatim>\<open>A*B\<close>, \<^verbatim>\<open>A+B\<close>, \<^verbatim>\<open>A*c\<close>.\<close>

definition transpose_mat :: "mat \<Rightarrow> mat" where
  "transpose_mat A = mat_of_fun (ncols A) (nrows A) (\<lambda>i j. A ! j ! i)"

definition trace_mat :: "mat \<Rightarrow> real" where
  "trace_mat A = sum_list (map (\<lambda>i. A ! i ! i) [0..<min (nrows A) (ncols A)])"

definition sum_mat :: "mat \<Rightarrow> real" where
  "sum_mat A = sum_list (map sum_list A)"

definition col_sums :: "nat \<Rightarrow> mat \<Rightarrow> vec" where
  "col_sums d A = map (\<lambda>j. sum_list (map (\<lambda>r. r ! j) A)) [0..<d]"

definition mat_mul :: "mat \<Rightarrow> mat \<Rightarrow> mat" where
  "mat_mul A B =
     mat_of_fun (nrows A) (ncols B) (\<lambda>i j. sum_list (map (\<lambda>k. A ! i ! k * B ! k ! j) [0..<ncols A]))"

definition vec_mat_mul :: "vec \<Rightarrow> mat \<Rightarrow> vec" where
  "vec_mat_mul v A = map (\<lambda>j. sum_list (map (\<lambda>k. v ! k * A ! k ! j) [0..<length v])) [0..<ncols A]"

definition mul_elem :: "mat \<Rightarrow> mat \<Rightarrow> mat" where
  "mul_elem A B = map2 (map2 (*)) A B"

definition add_elem :: "mat \<Rightarrow> mat \<Rightarrow> mat" where
  "add_elem A B = map2 (map2 (+)) A B"

definition scale_mat :: "mat \<Rightarrow> real \<Rightarrow> mat" where
  "scale_mat A c = map (map (\<lambda>x. x * c)) A"

text \<open>A two-dimensional array with the part of its memory layout that the routines test:
  \<^verbatim>\<open>flags['FARRAY']\<close> holds for a column-major array, and transposing exchanges
  column-major and row-major.\<close>

datatype layout = F_contiguous | C_contiguous | Not_contiguous

record array2 =
  data :: mat
  layout :: layout

fun layout_T :: "layout \<Rightarrow> layout" where
  "layout_T F_contiguous = C_contiguous"
| "layout_T C_contiguous = F_contiguous"
| "layout_T Not_contiguous = Not_contiguous"

definition array_T :: "array2 \<Rightarrow> array2" where
  "array_T a = \<lparr>data = transpose_mat (data a), layout = layout_T (layout a)\<rparr>"

text \<open>The output argument of \<^verbatim>\<open>invert_normal_params\<close> and \<^verbatim>\<open>olse\<close>: \<^verbatim>\<open>None\<close> (a new
  column-major copy), \<^verbatim>\<open>'in-place'\<close> (the input array itself) or an array that receives
  a copy of the input (\<^verbatim>\<open>np.copyto\<close>, which raises ValueError on a shape it cannot
  broadcast; only equal shapes are accepted here).\<close>

datatype 'a out_arg = New_array | In_place | Into 'a

definition prepare_out :: "array2 out_arg \<Rightarrow> array2 \<Rightarrow> error + array2" where
  "prepare_out out A =
     (case out of
        In_place \<Rightarrow> Inr A
      | New_array \<Rightarrow> Inr (A\<lparr>layout := F_contiguous\<rparr>)
      | Into buf \<Rightarrow>
          if same_shape (data buf) (data A) then Inr (buf\<lparr>data := data A\<rparr>) else Inl ValueError)"

definition prepare_out_vec :: "vec out_arg \<Rightarrow> vec \<Rightarrow> error + vec" where
  "prepare_out_vec out b =
     (case out of
        In_place \<Rightarrow> Inr b
      | New_array \<Rightarrow> Inr b
      | Into buf \<Rightarrow> if length buf = length b then Inr b else Inl ValueError)"

section \<open>The LAPACK routines\<close>

text \<open>
  \<^verbatim>\<open>linalg.cho_factor\<close>, \<^verbatim>\<open>linalg.cho_solve\<close>, \<^verbatim>\<open>linalg.solve\<close> and the \<^verbatim>\<open>potri\<close> routine
  belong to scipy and LAPACK, not to this repository: they are a parameter of the model.
  \<open>cho_factor\<close> gives the upper Cholesky factor or raises LinAlgError; \<open>cho_solve\<close> takes
  the factor and a right-hand side; \<open>potri\<close> takes the factor and returns the array it
  wrote together with its status \<open>info\<close>; \<open>solve\<close> raises LinAlgError on a singular
  matrix. The routines are called with \<^verbatim>\<open>overwrite\<close> flags on column-major float arrays,
  where they work in the buffer they are given: the result of one call is what the next
  call finds in the buffer.
\<close>

record lapack =
  cho_factor :: "mat \<Rightarrow> error + mat"
  cho_solve :: "mat \<Rightarrow> vec \<Rightarrow> error + vec"
  potri :: "mat \<Rightarrow> mat \<times> int"
  solve :: "mat \<Rightarrow> mat \<Rightarrow> error + mat"

section \<open>The Gaussian parameter converter\<close>

text \<open>
  Modelled from the spec: \<^verbatim>\<open>copy_triu_to_tril\<close> of \<^verbatim>\<open>cython_util\<close>, whose source is not
  part of the files at hand. The specification says that the lower triangle is copied
  from the upper one; the array keeps its \<open>n\<close> by \<open>n\<close> shape.
\<close>

definition copy_triu_to_tril :: "nat \<Rightarrow> mat \<Rightarrow> mat" where
  "copy_triu_to_tril n R = mat_of_fun n n (\<lambda>i j. if j < i then R ! j ! i else R ! i ! j)"

definition invert_normal_params ::
  "lapack \<Rightarrow> array2 \<Rightarrow> vec option \<Rightarrow> array2 out_arg \<Rightarrow> vec out_arg \<Rightarrow> bool
     \<Rightarrow> error + (array2 \<times> vec option)" where
  "invert_normal_params L A b out_A out_b cho_form =
     bindE (prepare_out out_A A) (\<lambda>out_A1.
     bindE (if layout out_A1 \<noteq> F_contiguous
            then (let t = array_T out_A1 in
                  if layout t \<noteq> F_contiguous \<and> nrows (data t) > 1 then Inl ValueError
                  else Inr t)
            else Inr out_A1) (\<lambda>out_A2.
     bindE (case b of
              None \<Rightarrow> Inr None
            | Some bv \<Rightarrow> bindE (prepare_out_vec out_b bv) (\<lambda>x. Inr (Some x))) (\<lambda>out_b1.
     bindE (if \<not> cho_form then cho_factor L (data out_A2) else Inr (data out_A2)) (\<lambda>cho.
     bindE (case out_b1 of
              None \<Rightarrow> Inr None
            | Some bv \<Rightarrow> bindE (cho_solve L cho bv) (\<lambda>x. Inr (Some x))) (\<lambda>out_b2.
     (case potri L cho of
        (R, info) \<Rightarrow>
          if info \<noteq> 0 then Inl LinAlgError
          else Inr (out_A2\<lparr>data := copy_triu_to_tril (nrows (data out_A2)) R\<rparr>, out_b2)))))))"

section \<open>The shrinkage precision estimator\<close>

text \<open>
  Modelled from the spec: \<^verbatim>\<open>fro_norm_squared\<close> of \<^verbatim>\<open>cython_util\<close>, the squared Frobenius
  norm, that is the sum of the squares of all entries.
\<close>

definition fro_norm_squared :: "mat \<Rightarrow> real" where
  "fro_norm_squared A = sum_list (map (\<lambda>r. sum_list (map (\<lambda>x. x * x) r)) A)"

text \<open>\<^verbatim>\<open>flags['FARRAY']\<close> holds for an array that is column-major and not row-major as
  well; an array with at most one row or at most one column is both.\<close>

definition farray :: "array2 \<Rightarrow> bool" where
  "farray a = (layout a = F_contiguous \<and> 1 < nrows (data a) \<and> 1 < ncols (data a))"

text \<open>The elementwise operations of the shrinkage on entries that need not be finite:
  \<^verbatim>\<open>out *= alpha\<close>, \<^verbatim>\<open>out.flat[::out.shape[1]+1] += c\<close>, \<^verbatim>\<open>np.multiply(beta, P)\<close> and
  \<^verbatim>\<open>out += temp\<close>.\<close>

type_synonym fmat = "fnum list list"

definition fscale :: "mat \<Rightarrow> fnum \<Rightarrow> fmat" where
  "fscale A c = map (map (\<lambda>x. fmul (Fin x) c)) A"

definition fscale_by :: "fnum \<Rightarrow> mat \<Rightarrow> fmat" where
  "fscale_by c A = map (map (\<lambda>x. fmul c (Fin x))) A"

definition fadd_flat_stride :: "nat \<Rightarrow> fmat \<Rightarrow> fnum \<Rightarrow> fmat" where
  "fadd_flat_stride nc A c =
     map (\<lambda>(i, r). map (\<lambda>(j, x). if (i * nc + j) mod (nc + 1) = 0 then fadd x c else x)
                      (enumerate 0 r))
         (enumerate 0 A)"

definition fadd_elem :: "fmat \<Rightarrow> fmat \<Rightarrow> fmat" where
  "fadd_elem A B = map2 (map2 fadd) A B"

text \<open>
  The prior \<open>P\<close> in \<^verbatim>\<open>out*P\<close> and in \<^verbatim>\<open>np.multiply(beta, P, out=temp)\<close> is broadcast to the
  shape of \<^verbatim>\<open>out\<close>: a dimension of \<open>P\<close> must have the length of that of \<^verbatim>\<open>out\<close> or the
  length one, in which case its only entry is repeated; numpy raises ValueError otherwise.
\<close>

definition broadcast_to :: "nat \<Rightarrow> nat \<Rightarrow> mat \<Rightarrow> mat option" where
  "broadcast_to n m P =
     (if is_matrix (nrows P) (ncols P) P \<and> (nrows P = n \<or> nrows P = 1) \<and> (ncols P = m \<or> ncols P = 1)
      then Some (mat_of_fun n m (\<lambda>i j. P ! (if nrows P = 1 then 0 else i) ! (if ncols P = 1 then 0 else j)))
      else None)"

text \<open>What \<^verbatim>\<open>olse\<close> returns: the entries of its output array, which need not be finite,
  and the layout of that array.\<close>

record float_array =
  entries :: fmat
  order :: layout

text \<open>
  The calculation of \<^verbatim>\<open>olse\<close> after the inversion, with the inverse in the buffer
  \<open>out3\<close>. The trace and the squared norms are finite. The sample count \<open>n\<close> is a Python
  int, and so is the dimension \<open>d\<close>: the quotient \<^verbatim>\<open>d/n\<close> in the line for \<^verbatim>\<open>beta\<close> raises
  ZeroDivisionError when \<open>n = 0\<close>, while the float divisions in the line for \<^verbatim>\<open>alpha\<close>
  before it only produce \<^verbatim>\<open>inf\<close> or \<^verbatim>\<open>nan\<close>.
\<close>

definition olse_shrink :: "nat \<Rightarrow> int \<Rightarrow> mat option \<Rightarrow> array2 \<Rightarrow> error + float_array" where
  "olse_shrink d n P out3 =
     (let B = data out3;
          tr = trace_mat B;
          tr2 = tr ^ 2;
          f2 = fro_norm_squared (transpose_mat B) in
      case P of
        None \<Rightarrow>
          let alpha = fsub (Fin 1)
                        (fdiv (fadd (Fin (real d))
                                 (fdiv (Fin tr2) (fsub (Fin f2) (fdiv (Fin tr2) (Fin (real d))))))
                              (Fin (real_of_int n))) in
          if n = 0 then Inl ZeroDivisionError
          else
            let beta = fmul (Fin tr) (fsub (Fin (1 - real d / real_of_int n)) alpha) in
            Inr \<lparr>entries = fadd_flat_stride (ncols B) (fscale B alpha) (fdiv beta (Fin (real d))),
                 order = layout out3\<rparr>
      | Some Pm \<Rightarrow>
          let f2p = fro_norm_squared (transpose_mat Pm) in
          case broadcast_to (nrows B) (ncols B) Pm of
            None \<Rightarrow> Inl ValueError
          | Some Pb \<Rightarrow>
              let temp = mul_elem B Pb;
                  trSP = sum_mat temp;
                  alpha = fsub (Fin 1)
                            (fdiv (fadd (Fin (real d))
                                     (fdiv (Fin (tr2 * f2p)) (Fin (f2 * f2p - trSP ^ 2))))
                                  (Fin (real_of_int n))) in
              if n = 0 then Inl ZeroDivisionError
              else
                let beta = fmul (fdiv (Fin trSP) (Fin f2p))
                             (fsub (Fin (1 - real d / real_of_int n)) alpha) in
                Inr \<lparr>entries = fadd_elem (fscale B alpha) (fscale_by beta Pb),
                     order = layout out3\<rparr>)"

text \<open>\<^verbatim>\<open>olse\<close>: the processing of the arguments, the in-place inversion of the copy of \<open>S\<close>
  and the shrinkage above. Unlike \<^verbatim>\<open>invert_normal_params\<close>, the test of the layout makes
  no exception for an array with a single row.\<close>

definition olse :: "lapack \<Rightarrow> array2 \<Rightarrow> int \<Rightarrow> mat option \<Rightarrow> array2 out_arg \<Rightarrow> error + float_array" where
  "olse L S n P out =
     bindE (prepare_out out S) (\<lambda>out1.
     bindE (if \<not> farray out1
            then (let t = array_T out1 in
                  if \<not> farray t then Inl ValueError else Inr t)
            else Inr out1) (\<lambda>out2.
     let d = nrows (data out2) in
     bindE (invert_normal_params L out2 None In_place New_array False) (\<lambda>(out3, _).
     olse_shrink d n P out3)))"

text \<open>The naive prior matrix: the \<open>d\<close> by \<open>d\<close> identity divided by \<open>d\<close>.\<close>

definition naive_prior :: "nat \<Rightarrow> mat" where
  "naive_prior d = mat_of_fun d d (\<lambda>i j. if i = j then 1 / real d else 0)"

section \<open>A reference implementation of the LAPACK routines\<close>

text \<open>
  To run the model on concrete inputs the parameter needs a value. The functions below
  compute in exact arithmetic what the documentation of LAPACK says the routines
  compute. The Cholesky factor is found by elimination: the first row of the factor is
  the first row of the matrix divided by the root of its first entry, and the rest is the
  factor of what remains after the first row and column are eliminated. The entries
  below the diagonal of the result are not part of the factor. The solution of
  \<open>U\<^sup>T U x = b\<close> is a forward substitution followed by a backward substitution, the
  inverse is made of the solutions for the unit vectors, and a general square system is
  solved by elimination with row exchanges.
\<close>

function chol :: "mat \<Rightarrow> error + mat" where
  "chol [] = Inr []"
| "chol (r # rows) =
     (case r of
        [] \<Rightarrow> Inl ValueError
      | a # v \<Rightarrow>
          if a \<le> 0 then Inl LinAlgError
          else
            let p = sqrt a;
                u = map (\<lambda>x. x / p) v;
                rest = map2 (\<lambda>uk row. map2 (\<lambda>uj x. x - uk * uj) u (tl row)) u rows in
            bindE (chol rest) (\<lambda>U1. Inr ((p # u) # map2 (\<lambda>row urow. hd row # urow) rows U1)))"
  by pat_completeness auto
termination
  by (relation "measure length") auto

definition ref_cho_factor :: "mat \<Rightarrow> error + mat" where
  "ref_cho_factor A =
     (if \<not> is_matrix (length A) (length A) A then Inl ValueError else chol A)"

function forward_solve :: "mat \<Rightarrow> vec \<Rightarrow> vec" where
  "forward_solve [] b = []"
| "forward_solve (r # rows) b =
     (let y0 = hd b / hd r in
      y0 # forward_solve (map tl rows) (map2 (\<lambda>bk uk. bk - y0 * uk) (tl b) (tl r)))"
  by pat_completeness auto
termination
  by (relation "measure (\<lambda>(U, b). length U)") auto

function back_solve :: "mat \<Rightarrow> vec \<Rightarrow> vec" where
  "back_solve [] y = []"
| "back_solve (r # rows) y =
     (let x1 = back_solve (map tl rows) (tl y) in
      ((hd y - sum_list (map2 (*) (tl r) x1)) / hd r) # x1)"
  by pat_completeness auto
termination
  by (relation "measure (\<lambda>(U, y). length U)") auto

definition zero_on_diagonal :: "mat \<Rightarrow> bool" where
  "zero_on_diagonal U = list_ex (\<lambda>i. U ! i ! i = 0) [0..<length U]"

definition ref_cho_solve :: "mat \<Rightarrow> vec \<Rightarrow> error + vec" where
  "ref_cho_solve U b =
     (if length b \<noteq> length U then Inl ValueError
      else if zero_on_diagonal U then Inl LinAlgError
      else Inr (back_solve U (forward_solve U b)))"

definition unit_vec :: "nat \<Rightarrow> nat \<Rightarrow> vec" where
  "unit_vec n j = map (\<lambda>i. if i = j then 1 else 0) [0..<n]"

definition ref_potri :: "mat \<Rightarrow> mat \<times> int" where
  "ref_potri U =
     (case find (\<lambda>i. U ! i ! i = 0) [0..<length U] of
        Some i \<Rightarrow> (U, int i + 1)
      | None \<Rightarrow>
          (mat_of_fun (length U) (length U)
             (\<lambda>i j. if i \<le> j
                     then back_solve U (forward_solve U (unit_vec (length U) j)) ! i
                     else U ! i ! j),
           0))"

fun gauss_jordan :: "nat \<Rightarrow> nat \<Rightarrow> mat \<Rightarrow> error + mat" where
  "gauss_jordan 0 c rows = Inr rows"
| "gauss_jordan (Suc k) c rows =
     (case find (\<lambda>p. rows ! p ! c \<noteq> 0) [c..<length rows] of
        None \<Rightarrow> Inl LinAlgError
      | Some p \<Rightarrow>
          let rp = rows ! p;
              rows1 = rows[p := rows ! c, c := rp];
              piv = map (\<lambda>x. x / rp ! c) rp;
              rows2 = map (\<lambda>(i, r). if i = c then piv else map2 (\<lambda>x y. x - r ! c * y) r piv)
                          (enumerate 0 rows1)
          in gauss_jordan k (Suc c) rows2)"

definition ref_solve :: "mat \<Rightarrow> mat \<Rightarrow> error + mat" where
  "ref_solve A B =
     (if \<not> is_matrix (length A) (length A) A \<or> length B \<noteq> length A then Inl ValueError
      else bindE (gauss_jordan (length A) 0 (map2 (@) A B)) (\<lambda>rows. Inr (map (drop (length A)) rows)))"

definition lapack_ref :: lapack where
  "lapack_ref = \<lparr>cho_factor = ref_cho_factor, cho_solve = ref_cho_solve, potri = ref_potri,
                  solve = ref_solve\<rparr>"

section \<open>Symmetric matrices\<close>

text \<open>A matrix is symmetric when it is square and entry \<open>(i, j)\<close> equals entry \<open>(j, i)\<close>
  for all indices.\<close>

definition symmetric_mat :: "mat \<Rightarrow> bool" where
  "symmetric_mat M =
     (is_matrix (length M) (length M) M
      \<and> list_all (\<lambda>i. list_all (\<lambda>j. M ! i ! j = M ! j ! i) [0..<length M]) [0..<length M])"

text \<open>For entries that need not be finite, the test \<^verbatim>\<open>M[i][j] == M[j][i]\<close> fails on \<^verbatim>\<open>nan\<close>;
  \<open>mirrored\<close> says that the two cells hold the same value.\<close>

definition mirrored :: "fmat \<Rightarrow> bool" where
  "mirrored M =
     (list_all (\<lambda>r. length r = length M) M
      \<and> list_all (\<lambda>i. list_all (\<lambda>j. M ! i ! j = M ! j ! i) [0..<length M]) [0..<length M])"

definition exactly_symmetric :: "fmat \<Rightarrow> bool" where
  "exactly_symmetric M =
     (list_all (\<lambda>r. length r = length M) M
      \<and> list_all (\<lambda>i. list_all (\<lambda>j. feq (M ! i ! j) (M ! j ! i)) [0..<length M]) [0..<length M])"

definition has_nan :: "fmat \<Rightarrow> bool" where
  "has_nan M = list_ex (list_ex (\<lambda>v. v = NaN)) M"

section \<open>The control-variate moment estimator\<close>

text \<open>
  Modelled from the spec: \<^verbatim>\<open>auto_outer\<close>, \<^verbatim>\<open>ravel_triu\<close> and \<^verbatim>\<open>unravel_triu\<close> of
  \<^verbatim>\<open>cython_util\<close>, whose source is not part of the files at hand. The specification says
  that the outer product of a row with itself is half-vectorised, the upper triangle
  unravelled in row-major order into a vector of length \<open>d (d + 1) / 2\<close>, and that the
  vector is un-vectorised back into a symmetric matrix.
\<close>

definition triu_pairs :: "nat \<Rightarrow> (nat \<times> nat) list" where
  "triu_pairs d = concat (map (\<lambda>i. map (\<lambda>j. (i, j)) [i..<d]) [0..<d])"

definition triu_index :: "nat \<Rightarrow> nat \<Rightarrow> nat \<Rightarrow> nat" where
  "triu_index d i j = length (takeWhile (\<lambda>p. p \<noteq> (i, j)) (triu_pairs d))"

definition auto_outer :: "nat \<Rightarrow> mat \<Rightarrow> mat" where
  "auto_outer d X = map (\<lambda>x. map (\<lambda>(i, j). x ! i * x ! j) (triu_pairs d)) X"

definition ravel_triu :: "nat \<Rightarrow> mat \<Rightarrow> vec" where
  "ravel_triu d A = map (\<lambda>(i, j). A ! i ! j) (triu_pairs d)"

definition unravel_triu :: "nat \<Rightarrow> vec \<Rightarrow> mat" where
  "unravel_triu d v = mat_of_fun d d (\<lambda>i j. v ! triu_index d (min i j) (max i j))"

text \<open>The options of \<^verbatim>\<open>_cv_estim\<close>, the regression coefficient it returns (a matrix with
  \<^verbatim>\<open>multiple_cv\<close>, a vector without, and the int \<open>0\<close> that \<^verbatim>\<open>cv_moments\<close> returns in its
  place on the fallback path), and Python's truth value of an optional float.\<close>

record cv_opt =
  multiple_cv :: bool
  regulate_a :: "real option"
  max_a :: "real option"

datatype coef = Coef_zero | Coef_vec vec | Coef_mat mat

definition truthy :: "real option \<Rightarrow> bool" where
  "truthy x = (case x of None \<Rightarrow> False | Some v \<Rightarrow> v \<noteq> 0)"

text \<open>\<^verbatim>\<open>A - v\<close> and \<^verbatim>\<open>A * w[:,np.newaxis]\<close>: a vector subtracted from every row, and
  every row multiplied by its own weight.\<close>

definition sub_row :: "mat \<Rightarrow> vec \<Rightarrow> mat" where
  "sub_row A v = map (\<lambda>r. map2 (-) r v) A"

definition scale_rows :: "mat \<Rightarrow> vec \<Rightarrow> mat" where
  "scale_rows A w = map2 (\<lambda>r c. map (\<lambda>x. x * c) r) A w"

definition map_coef :: "(real \<Rightarrow> real) \<Rightarrow> coef \<Rightarrow> coef" where
  "map_coef g a = (case a of Coef_zero \<Rightarrow> Coef_zero | Coef_vec v \<Rightarrow> Coef_vec (map g v)
                   | Coef_mat A \<Rightarrow> Coef_mat (map (map g) A))"

text \<open>\<^verbatim>\<open>_cv_estim\<close> for arrays \<open>f\<close> and \<open>h\<close> with \<open>d\<close> columns. A division by a count that is
  zero, or by a variance that is zero, is where numpy goes on with \<open>inf\<close> or \<open>nan\<close>.\<close>

definition cv_estim ::
  "lapack \<Rightarrow> nat \<Rightarrow> mat \<Rightarrow> mat \<Rightarrow> vec \<Rightarrow> cv_opt \<Rightarrow> int \<Rightarrow> int \<Rightarrow> int \<Rightarrow> int
     \<Rightarrow> error + (vec \<times> coef)" where
  "cv_estim L d f h Eh opt cov_k var_k ddof_f ddof_h =
     (let n = int (nrows f) in
      if n - ddof_f = 0 then Inl FloatNonFinite
      else
        let out0 = map (\<lambda>s. s / real_of_int (n - ddof_f)) (col_sums d f);
            fc = sub_row f out0;
            hc = sub_row h Eh in
        bindE (if multiple_cv opt
               then
                 let var_h = transpose_mat (mat_mul (transpose_mat hc) hc);
                     cov_fh = transpose_mat (mat_mul (transpose_mat fc) hc);
                     cov_fh1 = (if cov_k \<noteq> 0 then scale_mat cov_fh (real_of_int cov_k) else cov_fh);
                     var_h1 = (if var_k \<noteq> 0 then scale_mat var_h (real_of_int var_k) else var_h) in
                 bindE (solve L var_h1 cov_fh1) (\<lambda>a. Inr (Coef_mat a))
               else
                 let var_h = col_sums d (map (map (\<lambda>x. x ^ 2)) hc);
                     cov_fh = col_sums d (mul_elem fc hc);
                     cov_fh1 = (if cov_k \<noteq> 0 then map (\<lambda>x. x * real_of_int cov_k) cov_fh else cov_fh);
                     var_h1 = (if var_k \<noteq> 0 then map (\<lambda>x. x * real_of_int var_k) var_h else var_h) in
                 if list_ex (\<lambda>x. x = 0) var_h1 then Inl FloatNonFinite
                 else Inr (Coef_vec (map2 (/) cov_fh1 var_h1))) (\<lambda>a.
        let a1 = (case regulate_a opt of
                    Some g \<Rightarrow> if g \<noteq> 0 then map_coef (\<lambda>x. x * g) a else a
                  | None \<Rightarrow> a);
            a2 = (case max_a opt of
                    Some c \<Rightarrow> if c \<noteq> 0 then map_coef (\<lambda>x. min c (max x (- c))) a1 else a1
                  | None \<Rightarrow> a1) in
        bindE (if ddof_h = 0
               then (if n = 0 then Inl FloatNonFinite
                     else Inr (map (\<lambda>s. s / real_of_int n) (col_sums d hc)))
               else (if n - ddof_h = 0 then Inl FloatNonFinite
                     else Inr (map2 (-) (map (\<lambda>s. s / real_of_int (n - ddof_h)) (col_sums d h)) Eh)))
          (\<lambda>hm.
        Inr (case a2 of
               Coef_mat am \<Rightarrow> map2 (-) out0 (vec_mat_mul hm am)
             | Coef_vec av \<Rightarrow> map2 (-) out0 (map2 (*) hm av)
             | Coef_zero \<Rightarrow> out0,
             a2))))"

text \<open>
  The moment parameters and the additive constant of the reference density, as
  \<^verbatim>\<open>cv_moments\<close> obtains them: the Cholesky factor of \<^verbatim>\<open>Q_tilde\<close> is computed when one of
  \<^verbatim>\<open>S_tilde\<close>, \<^verbatim>\<open>m_tilde\<close>, \<^verbatim>\<open>ldet_Q_tilde\<close> is missing, and both moment parameters are
  recomputed when one of them is missing.
\<close>

definition log_2pi :: real where
  "log_2pi = ln (2 * pi)"

definition diag_of :: "mat \<Rightarrow> vec" where
  "diag_of A = map (\<lambda>i. A ! i ! i) [0..<min (nrows A) (ncols A)]"

definition half_log_det :: "mat \<Rightarrow> error + real" where
  "half_log_det c =
     (if list_ex (\<lambda>x. x \<le> 0) (diag_of c) then Inl FloatNonFinite
      else Inr (sum_list (map ln (diag_of c))))"

definition cv_reference ::
  "lapack \<Rightarrow> nat \<Rightarrow> mat \<Rightarrow> vec \<Rightarrow> mat option \<Rightarrow> vec option \<Rightarrow> real option
     \<Rightarrow> error + (mat \<times> vec \<times> real)" where
  "cv_reference L d Q_tilde r_tilde S_tilde m_tilde ldet_Q_tilde =
     (case (S_tilde, m_tilde) of
        (Some S0, Some m0) \<Rightarrow>
          (case ldet_Q_tilde of
             Some l \<Rightarrow> Inr (S0, m0, l - 0.5 * real d * log_2pi)
           | None \<Rightarrow>
               bindE (cho_factor L Q_tilde) (\<lambda>cho_tilde.
               bindE (half_log_det cho_tilde) (\<lambda>l.
               Inr (S0, m0, l - 0.5 * real d * log_2pi))))
      | _ \<Rightarrow>
          bindE (cho_factor L Q_tilde) (\<lambda>cho_tilde.
          bindE (invert_normal_params L \<lparr>data = cho_tilde, layout = F_contiguous\<rparr> (Some r_tilde)
                   New_array New_array True) (\<lambda>(S1, m1).
          bindE (case m1 of Some m0 \<Rightarrow> Inr m0 | None \<Rightarrow> Inl ValueError) (\<lambda>m0.
          bindE (case ldet_Q_tilde of Some l \<Rightarrow> Inr l | None \<Rightarrow> half_log_det cho_tilde) (\<lambda>l.
          Inr (data S1, m0, l - 0.5 * real d * log_2pi))))))"

text \<open>The importance weights \<^verbatim>\<open>pr\<close>: the reference log-density of every sample minus its
  log-density \<^verbatim>\<open>lp\<close>, exponentiated.\<close>

definition prob_ratios :: "mat \<Rightarrow> vec \<Rightarrow> mat \<Rightarrow> real \<Rightarrow> vec" where
  "prob_ratios dev_tilde lp Q_tilde const =
     (let lp_tilde = map (\<lambda>x. const - x * 0.5) (map sum_list (mul_elem (mat_mul dev_tilde Q_tilde) dev_tilde))
      in map exp (map2 (-) lp_tilde lp))"

text \<open>
  The balance check. A threshold below one half is replaced by its complement; the
  fraction of samples strictly below the reference mean is taken in every dimension; the
  check fires when some fraction is above the threshold or below its complement.
\<close>

definition effective_threshold :: "real \<Rightarrow> real" where
  "effective_threshold t = (if t < 0.5 then 1 - t else t)"

definition below_fractions :: "nat \<Rightarrow> mat \<Rightarrow> vec \<Rightarrow> vec" where
  "below_fractions d samp m_tilde =
     map (\<lambda>j. real (length (filter (\<lambda>r. r ! j < m_tilde ! j) samp)) / real (length samp)) [0..<d]"

definition threshold_exceeded :: "nat \<Rightarrow> mat \<Rightarrow> vec \<Rightarrow> real \<Rightarrow> bool" where
  "threshold_exceeded d samp m_tilde t =
     (list_ex (\<lambda>x. x > t) (below_fractions d samp m_tilde)
      \<or> list_ex (\<lambda>x. x < 1 - t) (below_fractions d samp m_tilde))"

text \<open>
  What \<^verbatim>\<open>cv_moments\<close> returns, together with the contents of the caller's arrays \<^verbatim>\<open>samp\<close>
  and \<^verbatim>\<open>lp\<close> when the call returns. The third result is named \<^verbatim>\<open>treshold_exceeded\<close> in
  the docstring; it is True when the control-variate estimate was used.
\<close>

record cv_result =
  S_hat :: mat
  m_hat :: vec
  used_cv :: bool
  a_S :: "coef option"
  a_m :: "coef option"
  samp_after :: mat
  lp_after :: vec

text \<open>The fallback: \<^verbatim>\<open>np.mean(samp, axis=0, out=m_hat)\<close>, \<^verbatim>\<open>samp -= m_hat\<close>,
  \<^verbatim>\<open>np.dot(samp.T, samp, out=S_hat.T)\<close> and \<^verbatim>\<open>S_hat /= n-1\<close>.\<close>

definition sample_estimates :: "nat \<Rightarrow> mat \<Rightarrow> vec \<Rightarrow> bool \<Rightarrow> error + cv_result" where
  "sample_estimates d samp lp ret_a =
     (let n = int (nrows samp);
          m1 = map (\<lambda>s. s / real_of_int n) (col_sums d samp);
          samp1 = sub_row samp m1;
          S1 = transpose_mat (mat_mul (transpose_mat samp1) samp1) in
      if n - 1 = 0 then Inl FloatNonFinite
      else Inr \<lparr>S_hat = map (map (\<lambda>x. x / real_of_int (n - 1))) S1, m_hat = m1, used_cv = False,
                a_S = (if ret_a then Some Coef_zero else None),
                a_m = (if ret_a then Some Coef_zero else None),
                samp_after = samp1, lp_after = lp\<rparr>)"

text \<open>The control-variate estimates of the mean and of the covariance.\<close>

definition cv_estimates ::
  "lapack \<Rightarrow> nat \<Rightarrow> mat \<Rightarrow> vec \<Rightarrow> mat \<Rightarrow> vec \<Rightarrow> mat \<Rightarrow> vec \<Rightarrow> cv_opt \<Rightarrow> bool
     \<Rightarrow> error + cv_result" where
  "cv_estimates L d samp lp S0 m0 dev_tilde pr opt ret_a =
     (let n = int (nrows samp);
          f = samp;
          h = scale_rows samp pr in
      bindE (cv_estim L d f h m0 opt n (n - 1) 0 0) (\<lambda>(m1, am).
      let d2 = (if d mod 2 = 0 then (d div 2) * (d + 1) else ((d + 1) div 2) * d);
          h2 = scale_rows (auto_outer d dev_tilde) pr;
          Eh = ravel_triu d (transpose_mat S0);
          dev = sub_row samp m1;
          f2 = auto_outer d dev in
      bindE (cv_estim L d2 f2 h2 Eh opt (n ^ 2) ((n - 1) ^ 2) 1 0) (\<lambda>(d2vec, aS).
      Inr \<lparr>S_hat = transpose_mat (unravel_triu d d2vec), m_hat = m1, used_cv = True,
           a_S = (if ret_a then Some aS else None),
           a_m = (if ret_a then Some am else None),
           samp_after = samp, lp_after = lp\<rparr>)))"

text \<open>
  \<^verbatim>\<open>cv_moments\<close> for a two-dimensional \<^verbatim>\<open>samp\<close> with \<open>n\<close> rows and \<open>d\<close> columns (a
  one-dimensional \<^verbatim>\<open>samp\<close> is turned into a view with one column on the same memory), with
  fresh output arrays \<^verbatim>\<open>S_hat\<close> and \<^verbatim>\<open>m_hat\<close>. For an empty sample the fractions of the
  balance check are \<open>0/0\<close>.
\<close>

definition cv_moments ::
  "lapack \<Rightarrow> nat \<Rightarrow> mat \<Rightarrow> vec \<Rightarrow> mat \<Rightarrow> vec \<Rightarrow> mat option \<Rightarrow> vec option \<Rightarrow> real option
     \<Rightarrow> cv_opt \<Rightarrow> real option \<Rightarrow> bool \<Rightarrow> error + cv_result" where
  "cv_moments L d samp lp Q_tilde r_tilde S_tilde m_tilde ldet_Q_tilde opt m_treshold ret_a =
     bindE (cv_reference L d Q_tilde r_tilde S_tilde m_tilde ldet_Q_tilde) (\<lambda>(S0, m0, const).
     let dev_tilde = sub_row samp m0;
         pr = prob_ratios dev_tilde lp Q_tilde const in
     (case m_treshold of
        None \<Rightarrow> cv_estimates L d samp lp S0 m0 dev_tilde pr opt ret_a
      | Some t0 \<Rightarrow>
          if t0 = 0 then cv_estimates L d samp lp S0 m0 dev_tilde pr opt ret_a
          else if nrows samp = 0 then Inl FloatNonFinite
          else if threshold_exceeded d samp m0 (effective_threshold t0)
          then sample_estimates d samp lp ret_a
          else cv_estimates L d samp lp S0 m0 dev_tilde pr opt ret_a))"

text \<open>The plain sample moments in the words of the specification: the mean of the rows,
  and the unbiased covariance, the sum of the products of the deviations from the mean
  divided by \<open>n - 1\<close>.\<close>

definition sample_mean :: "nat \<Rightarrow> mat \<Rightarrow> vec" where
  "sample_mean d X = map (\<lambda>j. sum_list (map (\<lambda>r. r ! j) X) / real (length X)) [0..<d]"

definition sample_cov :: "nat \<Rightarrow> mat \<Rightarrow> mat" where
  "sample_cov d X =
     mat_of_fun d d (\<lambda>i j.
       sum_list (map (\<lambda>r. (r ! i - sample_mean d X ! i) * (r ! j - sample_mean d X ! j)) X)
       / (real (length X) - 1))"

section \<open>What the LAPACK routines are documented to compute\<close>

text \<open>
  A \<open>d\<close> by \<open>d\<close> matrix is symmetric positive definite when it is symmetric and its
  quadratic form is positive at every vector that is not zero. For such a matrix \<open>A\<close> the
  documentation of the routines promises: \<open>cho_factor\<close> returns a factor; \<open>cho_solve\<close>
  with that factor and a right-hand side \<open>b\<close> returns the solution of \<open>A x = b\<close>; \<open>potri\<close>
  with that factor reports success and leaves the upper triangle of the inverse of \<open>A\<close>
  in the upper triangle of its buffer. \<open>lapack_contract L d\<close> says that the routines \<open>L\<close>
  keep these promises on the matrices of dimension \<open>d\<close>, in exact arithmetic.
\<close>

definition quad_form :: "nat \<Rightarrow> mat \<Rightarrow> (nat \<Rightarrow> real) \<Rightarrow> real" where
  "quad_form d A x = (\<Sum>i<d. \<Sum>j<d. x i * A ! i ! j * x j)"

definition spd :: "nat \<Rightarrow> mat \<Rightarrow> bool" where
  "spd d A = (symmetric_mat A \<and> length A = d \<and> (\<forall>x. (\<exists>i<d. x i \<noteq> 0) \<longrightarrow> 0 < quad_form d A x))"

definition solves :: "nat \<Rightarrow> mat \<Rightarrow> vec \<Rightarrow> vec \<Rightarrow> bool" where
  "solves d A x b = (length x = d \<and> (\<forall>i<d. (\<Sum>j<d. A ! i ! j * x ! j) = b ! i))"

definition right_inverse :: "nat \<Rightarrow> mat \<Rightarrow> mat \<Rightarrow> bool" where
  "right_inverse d A X =
     (is_matrix d d X
      \<and> (\<forall>i<d. \<forall>k<d. (\<Sum>j<d. A ! i ! j * X ! j ! k) = (if i = k then 1 else 0)))"

definition lapack_contract :: "lapack \<Rightarrow> nat \<Rightarrow> bool" where
  "lapack_contract L d =
     (\<forall>A. spd d A \<longrightarrow>
        (\<exists>U. cho_factor L A = Inr U
           \<and> (\<forall>b. length b = d \<longrightarrow> (\<exists>x. cho_solve L U b = Inr x \<and> solves d A x b))
           \<and> (\<exists>R X. potri L U = (R, 0) \<and> right_inverse d A X
                  \<and> (\<forall>i<d. \<forall>j<d. i \<le> j \<longrightarrow> R ! i ! j = X ! i ! j))))"

text \<open>The entries of the upper triangular factor held in the upper triangle of \<open>U\<close>, and
  what it means for \<open>U\<close> to hold the Cholesky factor of \<open>A\<close>: the diagonal is positive and
  \<open>U\<^sup>T U = A\<close>.\<close>

definition ut :: "mat \<Rightarrow> nat \<Rightarrow> nat \<Rightarrow> real" where
  "ut U l i = (if l \<le> i then U ! l ! i else 0)"

definition upper_factor :: "nat \<Rightarrow> mat \<Rightarrow> mat \<Rightarrow> bool" where
  "upper_factor d U A =
     (is_matrix d d U \<and> (\<forall>i<d. 0 < U ! i ! i)
      \<and> (\<forall>i<d. \<forall>j<d. (\<Sum>l<d. ut U l i * ut U l j) = A ! i ! j))"

section \<open>Properties of the rounding to binary64\<close>

lemma pow2_less_exp: "(2::real) powi a < 2 powi b \<Longrightarrow> a < b"
  using power_int_increasing[of b a "2::real"] by (cases "a < b") auto

lemma round_even_of_int [simp]: "round_even (of_int m) = m"
  by (simp add: round_even_def)

lemma round_even_ge_floor: "\<lfloor>q\<rfloor> \<le> round_even q"
  by (simp add: round_even_def Let_def)

text \<open>The value of \<open>fl64\<close> at a number whose binary exponent \<open>E\<close> is known.\<close>

lemma fl64_exponent:
  assumes "2 powi E \<le> \<bar>x\<bar>" "\<bar>x\<bar> < 2 powi (E + 1)"
  shows "fl64 x = of_int (round_even (x / 2 powi (max (E - 52) (- 1074)))) * 2 powi (max (E - 52) (- 1074))"
proof -
  have p: "0 < \<bar>x\<bar>" using assms(1) by (smt (verit) zero_less_power_int)
  then have x: "x \<noteq> 0" by simp
  have "(2::real) powr (of_int E) = 2 powi E" "(2::real) powr (of_int E + 1) = 2 powi (E + 1)"
    using powr_real_of_int'[of 2 E] powr_real_of_int'[of 2 "E + 1"] by simp_all
  then have "\<lfloor>log 2 \<bar>x\<bar>\<rfloor> = E"
    using assms p by (subst floor_log_eq_powr_iff) simp_all
  then show ?thesis using x by (simp add: fl64_def Let_def)
qed

text \<open>A number with a significand of at most 53 bits is a binary64 number.\<close>

lemma fl64_exact:
  assumes x: "x = of_int m * 2 powi k" and m: "\<bar>m\<bar> < 2 ^ 53" and k: "- 1074 \<le> k"
  shows "fl64 x = x"
proof (cases "m = 0")
  case True
  then show ?thesis using x by (simp add: fl64_def)
next
  case False
  then have x0: "x \<noteq> 0" using x by simp
  define E where "E = \<lfloor>log 2 \<bar>x\<bar>\<rfloor>"
  define e where "e = max (E - 52) (- 1074)"
  have ax: "\<bar>x\<bar> = of_int \<bar>m\<bar> * 2 powi k" using x by (simp add: abs_mult)
  have "2 powr (of_int E) \<le> \<bar>x\<bar>"
    using x0 floor_log_eq_powr_iff[of "\<bar>x\<bar>" 2 E] by (simp add: E_def)
  then have "2 powi E \<le> \<bar>x\<bar>" by (simp add: powr_real_of_int')
  also have "\<bar>x\<bar> < 2 ^ 53 * 2 powi k"
  proof -
    have "real_of_int \<bar>m\<bar> < 2 ^ 53" using m by (metis of_int_less_numeral_power_cancel_iff)
    then show ?thesis unfolding ax by (simp add: mult_strict_right_mono)
  qed
  also have "\<dots> = 2 powi (53 + k)" by (simp add: power_int_add)
  finally have "(2::real) powi E < 2 powi (53 + k)" .
  then have "E < 53 + k" by (rule pow2_less_exp)
  then have ek: "e \<le> k" using k by (simp add: e_def)
  have "x / 2 powi e = of_int m * 2 powi (k - e)"
    unfolding x by (simp add: power_int_diff)
  also have "\<dots> = of_int (m * 2 ^ nat (k - e))"
    using ek by (simp add: power_int_nonneg_exp)
  finally have q: "x / 2 powi e = of_int (m * 2 ^ nat (k - e))" .
  have "fl64 x = of_int (round_even (x / 2 powi e)) * 2 powi e"
    using x0 by (simp add: fl64_def Let_def e_def E_def)
  also have "\<dots> = x / 2 powi e * 2 powi e" unfolding q round_even_of_int by simp
  also have "\<dots> = x" by simp
  finally show ?thesis .
qed

lemma fl64_of_int: "\<bar>m\<bar> < 2 ^ 53 \<Longrightarrow> fl64 (of_int m) = of_int m"
  using fl64_exact[of "of_int m" m 0] by simp

text \<open>Rounding does not take a number that is at least one half below one half.\<close>

lemma fl64_ge_half:
  assumes "1 / 2 \<le> x"
  shows "1 / 2 \<le> fl64 x"
proof -
  have x0: "0 < x" using assms by simp
  define E where "E = \<lfloor>log 2 \<bar>x\<bar>\<rfloor>"
  have "log 2 (1 / 2) \<le> log 2 x" using assms x0 by (subst log_le_cancel_iff) simp_all
  then have "- 1 \<le> log 2 x" by (simp add: log_divide)
  then have E1: "- 1 \<le> E" using x0 by (simp add: E_def le_floor_iff)
  define e where "e = E - 52"
  have em: "max (E - 52) (- 1074) = e" using E1 by (simp add: e_def)
  have "2 powr (of_int E) \<le> \<bar>x\<bar>"
    using x0 floor_log_eq_powr_iff[of "\<bar>x\<bar>" 2 E] by (simp add: E_def)
  then have lo: "2 powi E \<le> x" using x0 by (simp add: powr_real_of_int')
  have "(2::real) ^ 52 = 2 powi E / 2 powi e" by (simp add: e_def power_int_diff[symmetric])
  also have "\<dots> \<le> x / 2 powi e" using lo by (simp add: divide_right_mono)
  finally have "of_int (2 ^ 52) \<le> x / 2 powi e" by simp
  then have "2 ^ 52 \<le> \<lfloor>x / 2 powi e\<rfloor>" by (simp only: le_floor_iff)
  then have r: "2 ^ 52 \<le> round_even (x / 2 powi e)" using round_even_ge_floor order_trans by blast
  have "fl64 x = of_int (round_even (x / 2 powi e)) * 2 powi e"
    using x0 em by (simp add: fl64_def Let_def E_def)
  moreover have "(2::real) ^ 52 * 2 powi e \<le> of_int (round_even (x / 2 powi e)) * 2 powi e"
  proof (intro mult_right_mono)
    have "real_of_int (2 ^ 52) \<le> of_int (round_even (x / 2 powi e))" using r by (simp only: of_int_le_iff)
    then show "(2::real) ^ 52 \<le> of_int (round_even (x / 2 powi e))" by simp
    show "(0::real) \<le> 2 powi e" by simp
  qed
  moreover have "(2::real) ^ 52 * 2 powi e = 2 powi E" by (simp add: e_def power_int_diff field_simps)
  moreover have "(1 / 2 :: real) \<le> 2 powi E"
  proof -
    have "(2::real) powi (- 1) \<le> 2 powi E" using E1 by (intro power_int_increasing) simp_all
    then show ?thesis by (simp add: power_int_minus)
  qed
  ultimately show ?thesis by linarith
qed
section \<open>Properties of the distributor\<close>

lemma bindE_Inr [simp]: "bindE (Inr v) f = f v" by (simp add: bindE_def)
lemma bindE_Inl [simp]: "bindE (Inl e) f = Inl e" by (simp add: bindE_def)

lemma py_index_first: "v \<in> set xs \<Longrightarrow> py_index xs v = Inr (first_index xs v)"
  by (induction xs) (auto simp: first_index_def)

lemma first_index_less: "v \<in> set xs \<Longrightarrow> first_index xs v < length xs"
  by (induction xs) (auto simp: first_index_def)

lemma first_index_nth: "v \<in> set xs \<Longrightarrow> xs ! first_index xs v = v"
  by (induction xs) (auto simp: first_index_def)

lemma first_index_before: "j < first_index xs v \<Longrightarrow> xs ! j \<noteq> v"
  by (induction xs arbitrary: j) (auto simp: first_index_def nth_Cons split: if_splits nat.splits)

lemma min_list_in: "xs \<noteq> [] \<Longrightarrow> min_list xs \<in> set (xs :: int list)"
  by (simp add: min_list_Min)

lemma length_merge_at: "Suc i < length xs \<Longrightarrow> Suc (length (merge_at i xs)) = length xs"
  by (auto simp: merge_at_def)

lemma nth_merge_at:
  "Suc i < length xs \<Longrightarrow> Suc j < length xs \<Longrightarrow>
   merge_at i xs ! j = (if j < i then xs ! j else if j = i then xs ! i + xs ! Suc i else xs ! Suc j)"
  by (auto simp: merge_at_def nth_append)

lemma length_pair_sums [simp]: "length (pair_sums xs) = length xs - 1"
  by (simp add: pair_sums_def)

lemma nth_pair_sums: "Suc j < length xs \<Longrightarrow> pair_sums xs ! j = xs ! j + xs ! Suc j"
  by (simp add: pair_sums_def nth_butlast nth_tl)

lemma wrap64_id: "- (2 ^ 63) \<le> x \<Longrightarrow> x < 2 ^ 63 \<Longrightarrow> wrap64 x = x"
  by (simp add: wrap64_def)

lemma wrap64_nonneg: "0 \<le> x \<Longrightarrow> x < 2 ^ 63 \<Longrightarrow> wrap64 x = x"
  by (simp add: wrap64_def)

lemma sum_list_ge_length: "\<forall>x\<in>set xs. (1::int) \<le> x \<Longrightarrow> int (length xs) \<le> sum_list xs"
  by (induction xs) auto

lemma nth_le_sum_list: "\<forall>x\<in>set xs. (0::int) \<le> x \<Longrightarrow> i < length xs \<Longrightarrow> xs ! i \<le> sum_list xs"
proof (induction xs arbitrary: i)
  case Nil
  then show ?case by simp
next
  case (Cons x xs)
  have s: "0 \<le> sum_list xs" using Cons.prems(1) by (intro sum_list_nonneg) simp
  have x: "0 \<le> x" using Cons.prems(1) by simp
  show ?case
  proof (cases i)
    case 0
    then show ?thesis using s by simp
  next
    case (Suc i1)
    then have "xs ! i1 \<le> sum_list xs" using Cons.prems by (intro Cons.IH) simp_all
    then show ?thesis using Suc x by simp
  qed
qed

lemma int_div_le_self: "0 \<le> a \<Longrightarrow> 1 \<le> p \<Longrightarrow> a div p \<le> (a::int)"
  using zdiv_mono2[of a 1 p] by simp

lemma pair_le_sum_list:
  assumes "\<forall>x\<in>set xs. (0::int) \<le> x" "Suc j < length xs"
  shows "xs ! j + xs ! Suc j \<le> sum_list xs"
proof -
  have "xs = take j xs @ xs ! j # xs ! Suc j # drop (j + 2) xs"
    using assms(2) by (metis Cons_nth_drop_Suc Suc_lessD add_2_eq_Suc' append_take_drop_id)
  then have "sum_list xs = sum_list (take j xs) + (xs ! j + xs ! Suc j) + sum_list (drop (j + 2) xs)"
    by (metis add.assoc sum_list.Cons sum_list_append)
  moreover have "0 \<le> sum_list (take j xs)" "0 \<le> sum_list (drop (j + 2) xs)"
    using assms(1) by (auto intro!: sum_list_nonneg dest: in_set_takeD in_set_dropD)
  ultimately show ?thesis by simp
qed

lemma adjacent_sums_exact:
  assumes "\<forall>x\<in>set xs. (0::int) \<le> x" "sum_list xs < 2 ^ 63"
  shows "adjacent_sums xs = pair_sums xs"
proof (rule nth_equalityI)
  show "length (adjacent_sums xs) = length (pair_sums xs)"
    by (simp add: adjacent_sums_def pair_sums_def)
next
  fix j assume "j < length (adjacent_sums xs)"
  then have j: "Suc j < length xs" by (simp add: adjacent_sums_def)
  have "0 \<le> xs ! j" "0 \<le> xs ! Suc j" using assms(1) j by simp_all
  moreover have "xs ! j + xs ! Suc j < 2 ^ 63"
    using pair_le_sum_list[OF assms(1) j] assms(2) by simp
  ultimately have "wrap64 (xs ! j + xs ! Suc j) = xs ! j + xs ! Suc j"
    by (intro wrap64_nonneg) simp_all
  then show "adjacent_sums xs ! j = pair_sums xs ! j"
    using j by (simp add: adjacent_sums_def pair_sums_def nth_butlast nth_tl)
qed

lemma sum_list_merge_at: "Suc i < length xs \<Longrightarrow> sum_list (merge_at i xs) = sum_list xs"
proof -
  assume a: "Suc i < length xs"
  have "xs = take i xs @ xs ! i # xs ! Suc i # drop (i + 2) xs"
    using a by (metis Cons_nth_drop_Suc Suc_lessD add_2_eq_Suc' append_take_drop_id)
  then have "sum_list xs = sum_list (take i xs @ xs ! i # xs ! Suc i # drop (i + 2) xs)" by simp
  then show ?thesis by (simp add: merge_at_def)
qed

lemma pop_set_merge_at:
  "Suc i < length xs \<Longrightarrow>
   take (Suc i) (xs[i := xs ! i + xs ! Suc i]) @ drop (Suc (Suc i)) (xs[i := xs ! i + xs ! Suc i]) = merge_at i xs"
  by (simp add: merge_at_def take_Suc_conv_app_nth)

lemma merge_step_pure:
  assumes len: "2 \<le> length Nk0" and lenc: "length Nj_k0 = length Nk0"
  defines "i \<equiv> first_index (pair_sums Nk0) (min_list (pair_sums Nk0))"
  shows "merge_step (Nk0, pair_sums Nk0, Nj_k0) =
    Inr (merge_at i Nk0, pair_sums (merge_at i Nk0), merge_at i Nj_k0)"
    and "Suc i < length Nk0"
proof -
  define Njd0 where "Njd0 = pair_sums Nk0"
  have l0: "length Njd0 = length Nk0 - 1" by (simp add: Njd0_def)
  have ne: "Njd0 \<noteq> []" using len l0 by auto
  have mem: "min_list Njd0 \<in> set Njd0" using ne by (rule min_list_in)
  have i_lt: "i < length Njd0" unfolding i_def Njd0_def[symmetric] using mem by (rule first_index_less)
  have idx: "py_index Njd0 (min_list Njd0) = Inr i"
    unfolding i_def Njd0_def[symmetric] using mem by (rule py_index_first)
  show si: "Suc i < length Nk0" using i_lt l0 by simp
  have n0: "\<And>j. Suc j < length Nk0 \<Longrightarrow> Njd0 ! j = Nk0 ! j + Nk0 ! Suc j"
    by (simp add: Njd0_def nth_pair_sums)
  define Njd1 where "Njd1 = (if i + 1 < length Njd0 then Njd0[i + 1 := Njd0 ! (i + 1) + Nk0 ! i] else Njd0)"
  define Njd2 where "Njd2 = (if i > 0 then Njd1[i - 1 := Njd1 ! (i - 1) + Nk0 ! (i + 1)] else Njd1)"
  have l1: "length Njd1 = length Njd0" by (simp add: Njd1_def)
  have l2: "length Njd2 = length Njd0" by (simp add: Njd2_def l1)
  have n2: "Njd2 ! i = Nk0 ! i + Nk0 ! Suc i"
    using i_lt si by (auto simp: Njd2_def Njd1_def n0)
  have lm: "length (merge_at i Nk0) = length Njd0" using length_merge_at[OF si] l0 by simp
  have pop: "take i Njd2 @ drop (Suc i) Njd2 = pair_sums (merge_at i Nk0)"
  proof (rule nth_equalityI)
    show "length (take i Njd2 @ drop (Suc i) Njd2) = length (pair_sums (merge_at i Nk0))"
      using i_lt l2 lm by auto
  next
    fix j assume "j < length (take i Njd2 @ drop (Suc i) Njd2)"
    then have j: "Suc j < length Njd0" using i_lt l2 by auto
    have "pair_sums (merge_at i Nk0) ! j = merge_at i Nk0 ! j + merge_at i Nk0 ! Suc j"
      using j lm by (simp add: nth_pair_sums)
    also have "\<dots> = (take i Njd2 @ drop (Suc i) Njd2) ! j"
    proof -
      have pj: "(take i Njd2 @ drop (Suc i) Njd2) ! j = (if j < i then Njd2 ! j else Njd2 ! Suc j)"
        using i_lt l2 j by (auto simp: nth_append)
      have nk: "\<And>k. k < length Njd0 \<Longrightarrow> Njd2 ! k =
          Njd0 ! k + (if k = Suc i then Nk0 ! i else 0) + (if Suc k = i then Nk0 ! Suc i else 0)"
        using i_lt by (auto simp: Njd2_def Njd1_def nth_list_update)
      consider "Suc j < i" | "Suc j = i" | "j = i" | "i < j" by linarith
      then show ?thesis
      proof cases
        case 1 then show ?thesis using j si l0 pj by (simp add: nk n0 nth_merge_at)
      next
        case 2 then show ?thesis using j si l0 pj by (simp add: nk n0 nth_merge_at)
      next
        case 3 then show ?thesis using j si l0 pj by (simp add: nk n0 nth_merge_at)
      next
        case 4 then show ?thesis using j si l0 pj by (simp add: nk n0 nth_merge_at)
      qed
    qed
    finally show "(take i Njd2 @ drop (Suc i) Njd2) ! j = pair_sums (merge_at i Nk0) ! j" by simp
  qed
  have sic: "Suc i < length Nj_k0" using si lenc by simp
  have s1: "py_min Njd0 = Inr (min_list Njd0)" using ne by (simp add: py_min_def)
  have s3: "(if i + 1 < length Njd0
            then bindE (py_get Nk0 i) (\<lambda>a. py_add_at Njd0 (i + 1) a)
            else Inr Njd0) = Inr Njd1"
    using si by (simp add: Njd1_def py_get_def py_add_at_def py_set_def)
  have s4: "(if i > 0
            then bindE (py_get Nk0 (i + 1)) (\<lambda>a. py_add_at Njd1 (i - 1) a)
            else Inr Njd1) = Inr Njd2"
    using si i_lt l1 by (auto simp: Njd2_def py_get_def py_add_at_def py_set_def)
  have s5: "py_get Njd2 i = Inr (Nk0 ! i + Nk0 ! Suc i)"
    using i_lt l2 n2 by (simp add: py_get_def)
  have s6: "py_set Nk0 i (Nk0 ! i + Nk0 ! Suc i) = Inr (Nk0[i := Nk0 ! i + Nk0 ! Suc i])"
    using si by (simp add: py_set_def)
  have s7: "py_pop (Nk0[i := Nk0 ! i + Nk0 ! Suc i]) (i + 1) = Inr (merge_at i Nk0)"
    using si pop_set_merge_at[OF si] by (simp add: py_pop_def)
  have s8: "py_pop Njd2 i = Inr (pair_sums (merge_at i Nk0))"
    using i_lt l2 pop by (simp add: py_pop_def)
  have s9: "py_get Nj_k0 (i + 1) = Inr (Nj_k0 ! Suc i)"
    using sic by (simp add: py_get_def)
  have s10: "py_add_at Nj_k0 i (Nj_k0 ! Suc i) = Inr (Nj_k0[i := Nj_k0 ! i + Nj_k0 ! Suc i])"
    using sic by (simp add: py_get_def py_add_at_def py_set_def)
  have s11: "py_pop (Nj_k0[i := Nj_k0 ! i + Nj_k0 ! Suc i]) (i + 1) = Inr (merge_at i Nj_k0)"
    using sic pop_set_merge_at[OF sic] by (simp add: py_pop_def)
  show "merge_step (Nk0, pair_sums Nk0, Nj_k0) =
    Inr (merge_at i Nk0, pair_sums (merge_at i Nk0), merge_at i Nj_k0)"
    unfolding merge_step_def Njd0_def[symmetric]
    by (simp only: prod.case s1 idx s3 s4 s5 s6 s7 s8 s9 s10 s11 bindE_Inr)
qed

lemma ref_smallest_pair_less: "ref_smallest_pair gs = Some i \<Longrightarrow> Suc i < length gs"
  by (auto simp: ref_smallest_pair_def find_Some_iff)

lemma min_list_le: "x \<in> set xs \<Longrightarrow> min_list xs \<le> (x::int)"
  by (metis List.finite_set Min_le empty_iff empty_set min_list_Min)

lemma ref_smallest_pair_zip:
  assumes len: "2 \<le> length xs" and lenc: "length cs = length xs"
  shows "ref_smallest_pair (zip xs cs) =
         Some (first_index (pair_sums xs) (min_list (pair_sums xs)))"
proof -
  define n where "n = length xs - 1"
  define m where "m = min_list (pair_sums xs)"
  define i where "i = first_index (pair_sums xs) m"
  have ln: "length (pair_sums xs) = n" by (simp add: n_def)
  have "0 < length (pair_sums xs)" using len by simp
  then have ne: "pair_sums xs \<noteq> []" by (metis length_greater_0_conv)
  have mem: "m \<in> set (pair_sums xs)" unfolding m_def using ne by (rule min_list_in)
  have i_lt: "i < n" using first_index_less[OF mem] ln by (simp add: i_def)
  have ps: "\<And>j. j < n \<Longrightarrow> ref_pair_size (zip xs cs) j = pair_sums xs ! j"
    using lenc by (simp add: ref_pair_size_def n_def nth_pair_sums)
  have le: "\<And>j. j < n \<Longrightarrow> m \<le> pair_sums xs ! j"
    unfolding m_def using ln by (simp add: min_list_le)
  have at_i: "pair_sums xs ! i = m" unfolding i_def using mem by (rule first_index_nth)
  have before: "\<And>j. j < i \<Longrightarrow> pair_sums xs ! j \<noteq> m"
    unfolding i_def by (rule first_index_before)
  have P: "\<And>j. j < n \<Longrightarrow>
      list_all (\<lambda>k. ref_pair_size (zip xs cs) j \<le> ref_pair_size (zip xs cs) k) [0..<n]
      \<longleftrightarrow> pair_sums xs ! j = m"
  proof -
    fix j assume j: "j < n"
    have "list_all (\<lambda>k. ref_pair_size (zip xs cs) j \<le> ref_pair_size (zip xs cs) k) [0..<n]
      \<longleftrightarrow> (\<forall>k<n. pair_sums xs ! j \<le> pair_sums xs ! k)"
      using j by (auto simp: list_all_iff ps)
    also have "\<dots> \<longleftrightarrow> pair_sums xs ! j = m"
    proof
      assume a: "\<forall>k<n. pair_sums xs ! j \<le> pair_sums xs ! k"
      then have "pair_sums xs ! j \<le> m" using i_lt at_i by auto
      with le[OF j] show "pair_sums xs ! j = m" by simp
    next
      assume "pair_sums xs ! j = m" then show "\<forall>k<n. pair_sums xs ! j \<le> pair_sums xs ! k"
        using le by simp
    qed
    finally show "list_all (\<lambda>k. ref_pair_size (zip xs cs) j \<le> ref_pair_size (zip xs cs) k) [0..<n]
      \<longleftrightarrow> pair_sums xs ! j = m" .
  qed
  have lz: "length (zip xs cs) - 1 = n" using lenc by (simp add: n_def)
  show ?thesis
    unfolding ref_smallest_pair_def lz m_def[symmetric] i_def[symmetric] find_Some_iff
  proof (intro exI[of _ i] conjI allI impI)
    show "i < length [0..<n]" using i_lt by simp
    show "list_all (\<lambda>j. ref_pair_size (zip xs cs) ([0..<n] ! i) \<le> ref_pair_size (zip xs cs) j) [0..<n]"
      using i_lt P[OF i_lt] at_i by simp
    show "i = [0..<n] ! i" using i_lt by simp
  next
    fix j assume j: "j < i"
    then have jn: "j < n" using i_lt by simp
    show "\<not> list_all (\<lambda>ja. ref_pair_size (zip xs cs) ([0..<n] ! j) \<le> ref_pair_size (zip xs cs) ja) [0..<n]"
      using jn P[OF jn] before[OF j] by simp
  qed
qed

lemma zip_merge_at:
  assumes "Suc i < length xs" "length cs = length xs"
  shows "zip (merge_at i xs) (merge_at i cs) = ref_merge_pair i (zip xs cs)"
  using assms by (simp add: merge_at_def ref_merge_pair_def zip_append1 take_zip drop_zip)

lemma merge_at_pos: "Suc i < length xs \<Longrightarrow> \<forall>x\<in>set xs. 0 < x \<Longrightarrow> \<forall>x\<in>set (merge_at i xs). 0 < x"
proof -
  assume a: "Suc i < length xs" and p: "\<forall>x\<in>set xs. 0 < x"
  have "0 < xs ! i" "0 < xs ! Suc i" using a p by auto
  moreover have "\<forall>x\<in>set (take i xs). 0 < x" "\<forall>x\<in>set (drop (i + 2) xs). 0 < x"
    using p by (auto dest: in_set_takeD in_set_dropD)
  ultimately show ?thesis by (auto simp: merge_at_def)
qed

lemma merge_loop_ref:
  assumes "1 \<le> K" "length Nk0 = n + K" "length Nj_k0 = length Nk0" "\<forall>x\<in>set Nj_k0. 0 < x"
  shows "\<exists>Nk1 Nj_k1. merge_loop n (Nk0, pair_sums Nk0, Nj_k0) = Inr (Nk1, pair_sums Nk1, Nj_k1)
     \<and> zip Nk1 Nj_k1 = ref_merge_until K (zip Nk0 Nj_k0)
     \<and> length Nk1 = K \<and> length Nj_k1 = K
     \<and> sum_list Nk1 = sum_list Nk0 \<and> sum_list Nj_k1 = sum_list Nj_k0
     \<and> (\<forall>x\<in>set Nj_k1. 0 < x)"
  using assms
proof (induction n arbitrary: Nk0 Nj_k0)
  case 0
  then show ?case by (simp add: ref_merge_until.simps)
next
  case (Suc n)
  define i where "i = first_index (pair_sums Nk0) (min_list (pair_sums Nk0))"
  have len2: "2 \<le> length Nk0" using Suc.prems by simp
  have step: "merge_step (Nk0, pair_sums Nk0, Nj_k0) =
      Inr (merge_at i Nk0, pair_sums (merge_at i Nk0), merge_at i Nj_k0)"
    and si: "Suc i < length Nk0"
    unfolding i_def using merge_step_pure[OF len2 Suc.prems(3)] by simp_all
  have sic: "Suc i < length Nj_k0" using si Suc.prems(3) by simp
  have l1: "length (merge_at i Nk0) = n + K" using length_merge_at[OF si] Suc.prems(2) by simp
  have l2: "length (merge_at i Nj_k0) = length (merge_at i Nk0)"
    using length_merge_at[OF si] length_merge_at[OF sic] Suc.prems(3) by simp
  have pos: "\<forall>x\<in>set (merge_at i Nj_k0). 0 < x" using merge_at_pos[OF sic Suc.prems(4)] .
  from Suc.IH[OF Suc.prems(1) l1 l2 pos] obtain Nk1 Nj_k1 where
    IH: "merge_loop n (merge_at i Nk0, pair_sums (merge_at i Nk0), merge_at i Nj_k0) =
           Inr (Nk1, pair_sums Nk1, Nj_k1)"
        "zip Nk1 Nj_k1 = ref_merge_until K (zip (merge_at i Nk0) (merge_at i Nj_k0))"
        "length Nk1 = K" "length Nj_k1 = K"
        "sum_list Nk1 = sum_list (merge_at i Nk0)" "sum_list Nj_k1 = sum_list (merge_at i Nj_k0)"
        "\<forall>x\<in>set Nj_k1. 0 < x"
    by blast
  have ref: "ref_merge_until K (zip Nk0 Nj_k0) = ref_merge_until K (zip (merge_at i Nk0) (merge_at i Nj_k0))"
  proof -
    have "\<not> length (zip Nk0 Nj_k0) \<le> K" using Suc.prems by simp
    moreover have "ref_smallest_pair (zip Nk0 Nj_k0) = Some i"
      unfolding i_def using len2 Suc.prems(3) by (rule ref_smallest_pair_zip)
    ultimately have "ref_merge_until K (zip Nk0 Nj_k0) = ref_merge_until K (ref_merge_pair i (zip Nk0 Nj_k0))"
      by (subst ref_merge_until.simps) simp
    then show ?thesis using zip_merge_at[OF si Suc.prems(3)] by simp
  qed
  show ?case
    using step IH ref sum_list_merge_at[OF si] sum_list_merge_at[OF sic] by simp
qed

lemma length_cumsum_from [simp]: "length (cumsum_from a xs) = length xs"
  by (induction xs arbitrary: a) auto

lemma nth_cumsum_from:
  "0 \<le> a \<Longrightarrow> \<forall>x\<in>set xs. 0 \<le> x \<Longrightarrow> a + sum_list xs < 2 ^ 63 \<Longrightarrow> i < length xs \<Longrightarrow>
   cumsum_from a xs ! i = a + sum_list (take (Suc i) xs)"
proof (induction xs arbitrary: a i)
  case Nil
  then show ?case by simp
next
  case (Cons x xs)
  have s: "0 \<le> sum_list xs" using Cons.prems(2) by (intro sum_list_nonneg) simp
  have x: "0 \<le> x" using Cons.prems(2) by simp
  have w: "wrap64 (a + x) = a + x"
    using Cons.prems(1,3) x s by (intro wrap64_nonneg) simp_all
  show ?case
  proof (cases i)
    case 0
    then show ?thesis by (simp add: w)
  next
    case (Suc i1)
    have "cumsum_from (a + x) xs ! i1 = (a + x) + sum_list (take (Suc i1) xs)"
      using Cons.prems Suc x by (intro Cons.IH) simp_all
    then show ?thesis using Suc by (simp add: w)
  qed
qed

lemma length_lim_of [simp]: "length (lim_of xs) = Suc (length xs)"
  by (simp add: lim_of_def)

lemma nth_lim_of:
  "\<forall>x\<in>set xs. 0 \<le> x \<Longrightarrow> sum_list xs < 2 ^ 63 \<Longrightarrow> i \<le> length xs \<Longrightarrow>
   lim_of xs ! i = sum_list (take i xs)"
  by (cases i) (auto simp: lim_of_def nth_cumsum_from)

lemma length_slice_assign [simp]: "length (slice_assign xs lo hi v) = length xs"
  by (simp add: slice_assign_def)

lemma fill_site_ok:
  "0 \<le> klim \<Longrightarrow> nat klim + ji + c < length j_lim \<Longrightarrow>
   \<exists>out1. fill_site j_lim klim c ji out = Inr out1 \<and> length out1 = length out"
proof (induction c arbitrary: ji out)
  case 0
  then show ?case by simp
next
  case (Suc c)
  have k: "nat (int ji + klim) = nat klim + ji" using Suc.prems by simp
  have b: "nat klim + Suc ji + c < length j_lim" using Suc.prems by simp
  from Suc.IH[OF Suc.prems(1) b,
      of "slice_assign out (j_lim ! (nat klim + ji)) (j_lim ! Suc (nat klim + ji)) (wrap32 (int ji))"]
  show ?case using Suc.prems
    by (simp add: k py_get_def Let_def)
qed

lemma sum_list_take_le:
  "\<forall>x\<in>set xs. (0::int) \<le> x \<Longrightarrow> sum_list (take i xs) \<le> sum_list xs"
proof -
  assume a: "\<forall>x\<in>set xs. (0::int) \<le> x"
  have "sum_list xs = sum_list (take i xs) + sum_list (drop i xs)"
    by (metis append_take_drop_id sum_list_append)
  moreover have "0 \<le> sum_list (drop i xs)"
    using a by (auto intro!: sum_list_nonneg dest: in_set_dropD)
  ultimately show ?thesis by simp
qed

lemma sum_list_take_nonneg:
  "\<forall>x\<in>set xs. (0::int) \<le> x \<Longrightarrow> 0 \<le> sum_list (take i xs)"
  by (auto intro!: sum_list_nonneg dest: in_set_takeD)

lemma fill_sites_ok:
  assumes "k + c \<le> length cs" "\<forall>x\<in>set cs. 0 \<le> x" "sum_list cs < int (length j_lim)"
    and "sum_list cs < 2 ^ 63"
  shows "\<exists>out1. fill_sites j_lim (lim_of cs) cs c k out = Inr out1 \<and> length out1 = length out"
  using assms
proof (induction c arbitrary: k out)
  case 0
  then show ?case by simp
next
  case (Suc c)
  have k: "k < length cs" using Suc.prems by simp
  have g1: "py_get cs k = Inr (cs ! k)" using k by (simp add: py_get_def)
  have g2: "py_get (lim_of cs) k = Inr (sum_list (take k cs))"
    using k Suc.prems(2,4) by (simp add: py_get_def nth_lim_of)
  have nn: "0 \<le> sum_list (take k cs)" using Suc.prems(2) by (rule sum_list_take_nonneg)
  have ck: "0 \<le> cs ! k" using k Suc.prems(2) by simp
  have "sum_list (take (Suc k) cs) \<le> sum_list cs" using Suc.prems(2) by (rule sum_list_take_le)
  then have "sum_list (take k cs) + cs ! k < int (length j_lim)"
    using k Suc.prems(3) by (simp add: take_Suc_conv_app_nth)
  then have b: "nat (sum_list (take k cs)) + 0 + nat (cs ! k) < length j_lim"
    using nn ck by linarith
  from fill_site_ok[OF nn b, of out] obtain out1 where
    o1: "fill_site j_lim (sum_list (take k cs)) (nat (cs ! k)) 0 out = Inr out1"
      "length out1 = length out" by blast
  have "Suc k + c \<le> length cs" using Suc.prems by simp
  from Suc.IH[OF this Suc.prems(2,3,4), of out1] o1 g1 g2 show ?case by simp
qed

lemma merge_groups_ok:
  assumes K: "2 \<le> K" and KJ: "K < J" and len: "length Nj = nat J"
    and pos: "\<forall>x\<in>set Nj. 1 \<le> x" and bound: "sum_list Nj < 2 ^ 63"
  defines "G \<equiv> ref_merge_until (nat K) (map (\<lambda>x. (x, 1)) Nj)"
  shows "\<exists>ind. merge_groups J K Nj (sum_list Nj) =
           Inr \<lparr>Nk = map Some (map fst G), Nj_k_or_Nk_j = Some (map snd G), j_ind_k = Some ind\<rparr>
         \<and> length ind = nat (sum_list Nj)"
    and "length G = nat K"
    and "sum_list (map fst G) = sum_list Nj"
    and "sum_list (map snd G) = J"
proof -
  have nn: "\<forall>x\<in>set Nj. 0 \<le> x" using pos by auto
  have ex: "adjacent_sums Nj = pair_sums Nj" using nn bound by (rule adjacent_sums_exact)
  have JN: "J \<le> sum_list Nj" using sum_list_ge_length[OF pos] len K KJ by simp
  have N0: "\<not> sum_list Nj < 0" using JN K KJ by simp
  have z: "zip Nj (replicate (nat J) 1) = map (\<lambda>x. (x, 1)) Nj"
    using len by (simp add: list_eq_iff_nth_eq)
  have a1: "1 \<le> nat K" using K by simp
  have a2: "length Nj = nat (J - K) + nat K" using K KJ len by simp
  have a3: "length (replicate (nat J) (1::int)) = length Nj" using len by simp
  have a4: "\<forall>x\<in>set (replicate (nat J) (1::int)). 0 < x" by simp
  from merge_loop_ref[OF a1 a2 a3 a4] obtain Nk1 Nj_k1 where
    L: "merge_loop (nat (J - K)) (Nj, pair_sums Nj, replicate (nat J) 1) =
          Inr (Nk1, pair_sums Nk1, Nj_k1)"
       "zip Nk1 Nj_k1 = G" "length Nk1 = nat K" "length Nj_k1 = nat K"
       "sum_list Nk1 = sum_list Nj" "sum_list Nj_k1 = sum_list (replicate (nat J) (1::int))"
       "\<forall>x\<in>set Nj_k1. 0 < x"
    unfolding G_def z by blast
  have f: "map fst G = Nk1" and s: "map snd G = Nj_k1"
    using L(2,3,4) by auto
  show "length G = nat K" using L(2,3,4) by (metis length_map f)
  show "sum_list (map fst G) = sum_list Nj" using f L(5) by simp
  have sj: "sum_list Nj_k1 = J" using L(6) K KJ by (simp add: sum_list_replicate)
  show "sum_list (map snd G) = J" using s sj by simp
  have b1: "0 + nat K \<le> length Nj_k1" using L(4) by simp
  have b2: "\<forall>x\<in>set Nj_k1. 0 \<le> x" using L(7) by auto
  have b3: "sum_list Nj_k1 < int (length (lim_of Nj))" using sj len K KJ by simp
  have b4: "sum_list Nj_k1 < 2 ^ 63" using sj JN bound by simp
  from fill_sites_ok[OF b1 b2 b3 b4, of "replicate (nat (sum_list Nj)) None"] obtain ind where
    F: "fill_sites (lim_of Nj) (lim_of Nj_k1) Nj_k1 (nat K) 0 (replicate (nat (sum_list Nj)) None) = Inr ind"
       "length ind = nat (sum_list Nj)" by auto
  show "\<exists>ind. merge_groups J K Nj (sum_list Nj) =
           Inr \<lparr>Nk = map Some (map fst G), Nj_k_or_Nk_j = Some (map snd G), j_ind_k = Some ind\<rparr>
         \<and> length ind = nat (sum_list Nj)"
    using L(1) F N0 by (simp add: merge_groups_def ex f s)
qed

lemma max_list_in: "xs \<noteq> [] \<Longrightarrow> max_list xs \<in> set xs"
  by (induction xs rule: max_list.induct) (auto simp: max_def)

lemma np_argmax_ok: "xs \<noteq> [] \<Longrightarrow> \<exists>i. np_argmax xs = Inr i \<and> i < length xs"
  using max_list_in[of xs] by (simp add: np_argmax_def py_index_first first_index_less)

lemma sum_list_update_int:
  "i < length xs \<Longrightarrow> sum_list (xs[i := v]) = sum_list xs - xs ! i + (v::int)"
  by (induction xs arbitrary: i) (auto split: nat.splits)

lemma split_loop_ok:
  assumes "Nj \<noteq> []" "length ppg = length Nj" "length Nj2 = length Nj" "\<forall>x\<in>set ppg. 1 \<le> x"
    and "sum_list ppg + int c < 2 ^ 63"
  shows "\<exists>ppg1 Nj21. split_loop c Nj (ppg, Nj2) = Inr (ppg1, Nj21) \<and> length ppg1 = length Nj
     \<and> (\<forall>x\<in>set ppg1. 1 \<le> x) \<and> sum_list ppg1 = sum_list ppg + int c"
  using assms
proof (induction c arbitrary: ppg Nj2)
  case 0
  then show ?case by simp
next
  case (Suc c)
  have "Nj2 \<noteq> []" using Suc.prems by auto
  then obtain i where i: "np_argmax Nj2 = Inr i" "i < length Nj2" using np_argmax_ok by blast
  define ppg1 where "ppg1 = ppg[i := ppg ! i + 1]"
  define Nj21 where "Nj21 = Nj2[i := true_divide (Nj ! i) (ppg1 ! i)]"
  have il: "i < length ppg" "i < length Nj" using i Suc.prems by auto
  have p1: "1 \<le> ppg ! i" using il Suc.prems(4) by auto
  have nn: "\<forall>x\<in>set ppg. 0 \<le> x" using Suc.prems(4) by auto
  have "ppg ! i \<le> sum_list ppg" using nn il(1) by (rule nth_le_sum_list)
  then have w: "wrap64 (ppg ! i + 1) = ppg ! i + 1"
    using p1 Suc.prems(5) by (intro wrap64_nonneg) simp_all
  have e0: "py_get ppg i = Inr (ppg ! i)" using il by (simp add: py_get_def)
  have e1: "py_set ppg i (wrap64 (ppg ! i + 1)) = Inr ppg1"
    using il by (simp add: py_set_def ppg1_def w)
  have e2: "py_get Nj i = Inr (Nj ! i)" using il by (simp add: py_get_def)
  have e3: "py_get ppg1 i = Inr (ppg1 ! i)" using il by (simp add: py_get_def ppg1_def)
  have e4: "py_set Nj2 i (true_divide (Nj ! i) (ppg1 ! i)) = Inr Nj21"
    using i by (simp add: py_set_def Nj21_def)
  have a2: "length ppg1 = length Nj" using Suc.prems by (simp add: ppg1_def)
  have a3: "length Nj21 = length Nj" using Suc.prems by (simp add: Nj21_def)
  have a4: "\<forall>x\<in>set ppg1. 1 \<le> x"
    using Suc.prems(4) p1 unfolding ppg1_def by (auto dest!: set_update_subset_insert[THEN subsetD])
  have sm: "sum_list ppg1 = sum_list ppg + 1" using il by (simp add: ppg1_def sum_list_update_int)
  have a5: "sum_list ppg1 + int c < 2 ^ 63" using sm Suc.prems(5) by simp
  from Suc.IH[OF Suc.prems(1) a2 a3 a4 a5] sm e0 e1 e2 e3 e4 i show ?case
    by (auto simp: add.assoc)
qed

lemma fill_parts_ok:
  assumes "j < length rem" "j < length Nj2" "k + c \<le> length Nk0"
  shows "fill_parts Nj2 rem j c kj (Nk0, k) =
     Inr (take k Nk0 @ map (\<lambda>i. Some (if int i < rem ! j then wrap64 (Nj2 ! j + 1) else Nj2 ! j)) [kj..<kj + c]
            @ drop (k + c) Nk0, k + c)"
  using assms
proof (induction c arbitrary: kj k Nk0)
  case 0
  then show ?case by simp
next
  case (Suc c)
  define v where "v = Some (if int kj < rem ! j then wrap64 (Nj2 ! j + 1) else Nj2 ! j)"
  have k: "k < length Nk0" using Suc.prems by simp
  have b: "Suc k + c \<le> length (Nk0[k := v])" using Suc.prems by simp
  have t: "take (Suc k) (Nk0[k := v]) = take k Nk0 @ [v]"
    using k by (simp add: take_Suc_conv_app_nth)
  have u: "[kj..<Suc (kj + c)] = kj # [Suc kj..<Suc (kj + c)]" by (simp add: upt_conv_Cons)
  show ?case
    using Suc.prems k Suc.IH[OF Suc.prems(1,2) b, of "Suc kj"]
    by (simp add: py_get_def py_set_def v_def[symmetric] t u del: upt_Suc)
qed

lemma length_parts_of [simp]: "length (parts_of q r p) = nat p"
  by (simp add: parts_of_def)

lemma fill_parts_parts_of:
  assumes "j < length rem" "j < length Nj2" "k + nat p \<le> length Nk0"
    and w: "0 < rem ! j \<longrightarrow> wrap64 (Nj2 ! j + 1) = Nj2 ! j + 1"
  shows "fill_parts Nj2 rem j (nat p) 0 (Nk0, k) =
     Inr (take k Nk0 @ map Some (parts_of (Nj2 ! j) (rem ! j) p) @ drop (k + nat p) Nk0, k + nat p)"
proof -
  have "map (\<lambda>i. Some (if int i < rem ! j then wrap64 (Nj2 ! j + 1) else Nj2 ! j)) [0..<nat p]
      = map Some (parts_of (Nj2 ! j) (rem ! j) p)"
    using w by (auto simp: parts_of_def)
  then show ?thesis using fill_parts_ok[OF assms(1,2,3), of 0] by simp
qed

lemma fill_groups_ok:
  assumes "j + c \<le> length ppg" "length Nj2 = length ppg" "length rem = length ppg"
    and "k + length (concat (map (\<lambda>j. parts_of (Nj2 ! j) (rem ! j) (ppg ! j)) [j..<j + c])) \<le> length Nk0"
    and "\<forall>j<length ppg. 0 < rem ! j \<longrightarrow> wrap64 (Nj2 ! j + 1) = Nj2 ! j + 1"
  shows "fill_groups ppg Nj2 rem c j (Nk0, k) =
     Inr (take k Nk0
          @ map Some (concat (map (\<lambda>j. parts_of (Nj2 ! j) (rem ! j) (ppg ! j)) [j..<j + c]))
          @ drop (k + length (concat (map (\<lambda>j. parts_of (Nj2 ! j) (rem ! j) (ppg ! j)) [j..<j + c]))) Nk0,
          k + length (concat (map (\<lambda>j. parts_of (Nj2 ! j) (rem ! j) (ppg ! j)) [j..<j + c])))"
  using assms
proof (induction c arbitrary: j k Nk0)
  case 0
  then show ?case by simp
next
  case (Suc c)
  let ?f = "\<lambda>j. parts_of (Nj2 ! j) (rem ! j) (ppg ! j)"
  define T where "T = length (concat (map ?f [Suc j..<Suc j + c]))"
  define np where "np = nat (ppg ! j)"
  have u: "[j..<j + Suc c] = j # [Suc j..<Suc j + c]" by (simp add: upt_conv_Cons)
  have tot: "length (concat (map ?f [j..<j + Suc c])) = np + T"
    unfolding u T_def np_def by simp
  have jl: "j < length ppg" "j < length rem" "j < length Nj2" using Suc.prems by auto
  have kb: "k + np + T \<le> length Nk0" using Suc.prems(4) unfolding tot by simp
  then have kb1: "k + nat (ppg ! j) \<le> length Nk0" by (simp add: np_def)
  define Nk1 where "Nk1 = take k Nk0 @ map Some (?f j) @ drop (k + np) Nk0"
  have wj: "0 < rem ! j \<longrightarrow> wrap64 (Nj2 ! j + 1) = Nj2 ! j + 1" using Suc.prems(5) jl(1) by simp
  have fp: "fill_parts Nj2 rem j (nat (ppg ! j)) 0 (Nk0, k) = Inr (Nk1, k + np)"
    using fill_parts_parts_of[OF jl(2,3) kb1 wj] by (simp add: Nk1_def np_def)
  have l1: "length Nk1 = length Nk0" using kb by (simp add: Nk1_def np_def)
  have a1: "Suc j + c \<le> length ppg" using Suc.prems by simp
  have a4: "(k + np) + length (concat (map ?f [Suc j..<Suc j + c])) \<le> length Nk1"
    using kb l1 by (simp add: T_def)
  have tk: "take (k + np) Nk1 = take k Nk0 @ map Some (?f j)"
    using kb by (simp add: Nk1_def np_def)
  have dr: "drop (k + np + T) Nk1 = drop (k + np + T) Nk0"
    using kb by (simp add: Nk1_def np_def ac_simps)
  have IH: "fill_groups ppg Nj2 rem c (Suc j) (Nk1, k + np) =
     Inr (take (k + np) Nk1 @ map Some (concat (map ?f [Suc j..<Suc j + c])) @ drop (k + np + T) Nk1,
          k + np + T)"
    using Suc.IH[OF a1 Suc.prems(2,3) a4 Suc.prems(5)] by (simp add: T_def)
  have g: "py_get ppg j = Inr (ppg ! j)" using jl by (simp add: py_get_def)
  have "fill_groups ppg Nj2 rem (Suc c) j (Nk0, k) =
      Inr (take k Nk0 @ map Some (?f j) @ map Some (concat (map ?f [Suc j..<Suc j + c]))
             @ drop (k + np + T) Nk0, k + np + T)"
    by (simp add: g fp IH tk dr)
  then show ?case unfolding tot unfolding u by (simp add: add.assoc)
qed

lemma length_concat_parts:
  assumes "\<forall>x\<in>set ppg. 0 \<le> x" "j \<le> length ppg"
  shows "length (concat (map (\<lambda>j. parts_of (q j) (r j) (ppg ! j)) [0..<j])) = nat (sum_list (take j ppg))"
  using assms(2)
proof (induction j)
  case 0
  then show ?case by simp
next
  case (Suc j)
  have a: "0 \<le> sum_list (take j ppg)" using assms(1) by (rule sum_list_take_nonneg)
  have b: "0 \<le> ppg ! j" using Suc.prems assms(1) by simp
  show ?case using Suc a b by (simp add: take_Suc_conv_app_nth nat_add_distrib)
qed

lemma sum_list_parts_of:
  assumes "0 \<le> r" "r \<le> p"
  shows "sum_list (parts_of q r p) = p * q + r"
proof -
  have "0 \<le> r \<Longrightarrow> sum_list (map (\<lambda>kj. if int kj < r then q + 1 else q) [0..<n]) = int n * q + min r (int n)" for n
    by (induction n) (auto simp: algebra_simps min_def)
  from this[OF assms(1), of "nat p"] assms show ?thesis by (simp add: parts_of_def min_def)
qed

lemma sum_list_concat_int: "sum_list (concat xss) = sum_list (map sum_list (xss :: int list list))"
  by (induction xss) auto

lemma sum_list_split_counts:
  assumes "length Nj = length ppg" "\<forall>x\<in>set ppg. 1 \<le> x"
  shows "sum_list (split_counts ppg Nj) = sum_list Nj"
proof -
  have "\<And>j. j < length ppg \<Longrightarrow>
      sum_list (parts_of (Nj ! j div ppg ! j) (Nj ! j mod ppg ! j) (ppg ! j)) = Nj ! j"
  proof -
    fix j assume j: "j < length ppg"
    then have p: "1 \<le> ppg ! j" using assms(2) by simp
    have "0 \<le> Nj ! j mod ppg ! j" "Nj ! j mod ppg ! j \<le> ppg ! j"
      using p by (simp_all add: less_imp_le)
    then show "sum_list (parts_of (Nj ! j div ppg ! j) (Nj ! j mod ppg ! j) (ppg ! j)) = Nj ! j"
      by (simp add: sum_list_parts_of)
  qed
  then have "map (\<lambda>j. sum_list (parts_of (Nj ! j div ppg ! j) (Nj ! j mod ppg ! j) (ppg ! j))) [0..<length ppg]
      = map (\<lambda>j. Nj ! j) [0..<length ppg]" by simp
  also have "\<dots> = Nj" by (metis assms(1) map_nth)
  finally show ?thesis
    by (simp add: split_counts_def sum_list_concat_int comp_def)
qed

lemma nth_map2: "i < length xs \<Longrightarrow> i < length ys \<Longrightarrow> map2 f xs ys ! i = f (xs ! i) (ys ! i)"
  by simp

lemma split_groups_ok:
  assumes ne: "0 < J" and len: "length Nj = nat J" and JK: "J < K"
    and pos: "\<forall>x\<in>set Nj. 1 \<le> x" and KN: "K \<le> sum_list Nj" and bound: "sum_list Nj < 2 ^ 63"
  shows "\<exists>ppg. split_groups J K Nj =
            Inr \<lparr>Nk = map Some (split_counts ppg Nj), Nj_k_or_Nk_j = Some ppg, j_ind_k = None\<rparr>
         \<and> length ppg = nat J \<and> (\<forall>x\<in>set ppg. 1 \<le> x) \<and> sum_list ppg = K"
proof -
  have a1: "Nj \<noteq> []" using ne len by auto
  have a2: "length (replicate (nat J) (1::int)) = length Nj" using len by simp
  have a3: "length (map int_to_float Nj) = length Nj" by simp
  have a4: "\<forall>x\<in>set (replicate (nat J) (1::int)). 1 \<le> x" by simp
  have a5: "sum_list (replicate (nat J) (1::int)) + int (nat (K - J)) < 2 ^ 63"
    using ne JK KN bound by (simp add: sum_list_replicate)
  from split_loop_ok[OF a1 a2 a3 a4 a5] obtain ppg Nj2f where
    L: "split_loop (nat (K - J)) Nj (replicate (nat J) 1, map int_to_float Nj) = Inr (ppg, Nj2f)"
       "length ppg = length Nj" "\<forall>x\<in>set ppg. 1 \<le> x"
       "sum_list ppg = sum_list (replicate (nat J) (1::int)) + int (nat (K - J))"
    by blast
  have sK: "sum_list ppg = K" using L(4) ne JK by (simp add: sum_list_replicate)
  have nn: "\<forall>x\<in>set ppg. 0 \<le> x" using L(3) by auto
  have nnj: "\<forall>x\<in>set Nj. 0 \<le> x" using pos by auto
  define Nj2 where "Nj2 = map2 floor_divide Nj ppg"
  define rem where "rem = map2 remainder Nj ppg"
  have q: "\<And>j. j < length ppg \<Longrightarrow> Nj2 ! j = Nj ! j div ppg ! j"
  proof -
    fix j assume j: "j < length ppg"
    have p: "1 \<le> ppg ! j" using j L(3) by simp
    have a: "1 \<le> Nj ! j" "Nj ! j < 2 ^ 63"
      using j L(2) pos nth_le_sum_list[OF nnj, of j] bound by simp_all
    have "0 \<le> Nj ! j div ppg ! j" using a p by (simp add: pos_imp_zdiv_nonneg_iff)
    moreover have "Nj ! j div ppg ! j \<le> Nj ! j" using a p by (intro int_div_le_self) simp_all
    ultimately have "wrap64 (Nj ! j div ppg ! j) = Nj ! j div ppg ! j"
      using a by (intro wrap64_nonneg) simp_all
    then show "Nj2 ! j = Nj ! j div ppg ! j"
      using j L(2) p by (simp add: Nj2_def floor_divide_def)
  qed
  have r: "\<And>j. j < length ppg \<Longrightarrow> rem ! j = Nj ! j mod ppg ! j"
  proof -
    fix j assume j: "j < length ppg"
    have p: "1 \<le> ppg ! j" using j L(3) by simp
    show "rem ! j = Nj ! j mod ppg ! j" using j L(2) p by (simp add: rem_def remainder_def)
  qed
  have w: "\<forall>j<length ppg. 0 < rem ! j \<longrightarrow> wrap64 (Nj2 ! j + 1) = Nj2 ! j + 1"
  proof (intro allI impI)
    fix j assume j: "j < length ppg" and rp: "0 < rem ! j"
    have p: "1 \<le> ppg ! j" using j L(3) by simp
    have a: "1 \<le> Nj ! j" "Nj ! j < 2 ^ 63"
      using j L(2) pos nth_le_sum_list[OF nnj, of j] bound by simp_all
    have d0: "0 \<le> Nj ! j div ppg ! j" using a p by (simp add: pos_imp_zdiv_nonneg_iff)
    have "Nj ! j = ppg ! j * (Nj ! j div ppg ! j) + Nj ! j mod ppg ! j" by simp
    moreover have "Nj ! j div ppg ! j \<le> ppg ! j * (Nj ! j div ppg ! j)"
      using p d0 by (simp add: mult_le_cancel_right1)
    ultimately have "Nj ! j div ppg ! j + 1 \<le> Nj ! j" using rp r[OF j] by linarith
    then have "wrap64 (Nj ! j div ppg ! j + 1) = Nj ! j div ppg ! j + 1"
      using a d0 by (intro wrap64_nonneg) simp_all
    then show "wrap64 (Nj2 ! j + 1) = Nj2 ! j + 1" using q[OF j] by simp
  qed
  let ?f = "\<lambda>j. parts_of (Nj2 ! j) (rem ! j) (ppg ! j)"
  have feq: "map ?f [0..<length ppg] =
        map (\<lambda>j. parts_of (Nj ! j div ppg ! j) (Nj ! j mod ppg ! j) (ppg ! j)) [0..<length ppg]"
    using q r by simp
  have tot: "length (concat (map ?f [0..<length ppg])) = nat K"
    using length_concat_parts[OF nn, of "length ppg" "\<lambda>j. Nj2 ! j" "\<lambda>j. rem ! j"] sK by simp
  have b1: "0 + length ppg \<le> length ppg" by simp
  have b2: "length Nj2 = length ppg" using L(2) by (simp add: Nj2_def)
  have b3: "length rem = length ppg" using L(2) by (simp add: rem_def)
  have b4: "0 + length (concat (map ?f [0..<0 + length ppg])) \<le> length (replicate (nat K) (None :: int option))"
    using tot by simp
  have F0: "fill_groups ppg Nj2 rem (length ppg) 0 (replicate (nat K) None, 0) =
      Inr (map Some (concat (map ?f [0..<length ppg])), nat K)"
    using fill_groups_ok[OF b1 b2 b3 b4 w] tot by simp
  have lp: "length ppg = nat J" using L(2) len by simp
  have F: "fill_groups ppg Nj2 rem (nat J) 0 (replicate (nat K) None, 0) =
      Inr (map Some (split_counts ppg Nj), nat K)"
    using F0 unfolding feq split_counts_def[symmetric] unfolding lp .
  have "split_groups J K Nj =
      Inr \<lparr>Nk = map Some (split_counts ppg Nj), Nj_k_or_Nk_j = Some ppg, j_ind_k = None\<rparr>"
    unfolding split_groups_def using L(1) F by (simp add: Nj2_def rem_def Let_def)
  then show ?thesis using L(2,3) sK len by auto
qed

lemma nth_concat_block:
  assumes "j < n" "i < length (f j)"
  shows "length (concat (map f [0..<j])) + i < length (concat (map f [0..<n]))"
    and "concat (map f [0..<n]) ! (length (concat (map f [0..<j])) + i) = f j ! i"
proof -
  have "[0..<n] = [0..<j] @ j # [Suc j..<n]"
    using assms(1) by (metis le_add1 le_add_same_cancel1 less_imp_add_positive upt_add_eq_append upt_conv_Cons)
  then have c: "concat (map f [0..<n]) = concat (map f [0..<j]) @ f j @ concat (map f [Suc j..<n])"
    by simp
  show "length (concat (map f [0..<j])) + i < length (concat (map f [0..<n]))"
    unfolding c using assms(2) by simp
  show "concat (map f [0..<n]) ! (length (concat (map f [0..<j])) + i) = f j ! i"
    unfolding c using assms(2) by (simp add: nth_append)
qed

lemma nth_parts_of: "i < nat p \<Longrightarrow> parts_of q r p ! i = q \<or> parts_of q r p ! i = q + 1"
  by (simp add: parts_of_def)

lemma split_counts_site:
  assumes len: "length Nj = length ppg" and pos: "\<forall>x\<in>set ppg. 1 \<le> x"
    and j: "j < length ppg" and k: "k \<in> set (sites_of_group ppg j)"
  shows "k < length (split_counts ppg Nj)"
    and "split_counts ppg Nj ! k = Nj ! j div ppg ! j \<or> split_counts ppg Nj ! k = Nj ! j div ppg ! j + 1"
proof -
  let ?f = "\<lambda>j. parts_of (Nj ! j div ppg ! j) (Nj ! j mod ppg ! j) (ppg ! j)"
  have nn: "\<forall>x\<in>set ppg. 0 \<le> x" using pos by auto
  have off: "length (concat (map ?f [0..<j])) = nat (sum_list (take j ppg))"
    using length_concat_parts[OF nn, of j] j by simp
  have a: "0 \<le> sum_list (take j ppg)" using nn by (rule sum_list_take_nonneg)
  have b: "0 \<le> ppg ! j" using j nn by simp
  have hi: "nat (sum_list (take (Suc j) ppg)) = nat (sum_list (take j ppg)) + nat (ppg ! j)"
    using j a b by (simp add: take_Suc_conv_app_nth nat_add_distrib)
  from k obtain i where i: "k = nat (sum_list (take j ppg)) + i" "i < nat (ppg ! j)"
    unfolding sites_of_group_def hi
    by (metis atLeastLessThan_iff le_Suc_ex nat_add_left_cancel_less set_upt)
  have il: "i < length (?f j)" using i by simp
  show "k < length (split_counts ppg Nj)"
    using nth_concat_block(1)[of j "length ppg" i ?f, OF j il] unfolding off i(1) split_counts_def .
  have "split_counts ppg Nj ! k = ?f j ! i"
    using nth_concat_block(2)[of j "length ppg" i ?f, OF j il] unfolding off i(1) split_counts_def .
  then show "split_counts ppg Nj ! k = Nj ! j div ppg ! j \<or> split_counts ppg Nj ! k = Nj ! j div ppg ! j + 1"
    using nth_parts_of[OF i(2)] by simp
qed

lemma check_Nj_cases:
  assumes "wf_nj Nj"
  shows "(invalid_shape J Nj \<and> check_Nj J Nj = Inl ValueError)
       \<or> (\<not> invalid_shape J Nj \<and> J < 0 \<and> (\<exists>n. Nj = NjInt n) \<and> check_Nj J Nj = Inl ValueError)
       \<or> (\<not> invalid_shape J Nj \<and> 0 \<le> J \<and> check_Nj J Nj = Inr (group_sizes J Nj)
           \<and> length (group_sizes J Nj) = nat J)"
proof (cases Nj)
  case (NjInt n)
  then show ?thesis by (simp add: invalid_shape_def check_Nj_def group_sizes_def)
next
  case (NjArray a)
  obtain sh fl where a: "a = NdArray sh fl" by (cases a)
  show ?thesis
  proof (cases "length sh = 1")
    case False
    then show ?thesis using NjArray a by (auto simp: invalid_shape_def check_Nj_def)
  next
    case True
    then obtain m where sh: "sh = [m]" by (cases sh) auto
    show ?thesis using NjArray a sh assms
      by (auto simp: invalid_shape_def check_Nj_def group_sizes_def wf_ndarray_def)
  qed
qed

lemma total_exact:
  assumes "\<forall>x\<in>set xs. (1::int) \<le> x" "sum_list xs < 2 ^ 63"
  shows "wrap64 (sum_list xs) = sum_list xs"
proof -
  have "0 \<le> sum_list xs" using assms(1) by (intro sum_list_nonneg) auto
  then show ?thesis using assms(2) by (rule wrap64_nonneg)
qed

lemma distribute_groups_invalid:
  assumes wf: "wf_nj Nj" and bad: "invalid_request J K Nj"
    and bound: "sum_list (group_sizes J Nj) < 2 ^ 63"
  shows "distribute_groups J K Nj = Inl ValueError"
proof -
  from check_Nj_cases[OF wf, of J] consider
      (a) "check_Nj J Nj = Inl ValueError"
    | (b) "\<not> invalid_shape J Nj" "0 \<le> J" "check_Nj J Nj = Inr (group_sizes J Nj)"
          "length (group_sizes J Nj) = nat J" by blast
  then show ?thesis
  proof cases
    case a
    then show ?thesis by (simp add: distribute_groups_def)
  next
    case b
    show ?thesis
    proof (cases "list_ex (\<lambda>x. x \<le> 0) (group_sizes J Nj) \<or> K < 2")
      case True
      then show ?thesis using b(3) by (auto simp: distribute_groups_def Let_def)
    next
      case False
      then have pos: "\<forall>x\<in>set (group_sizes J Nj). 1 \<le> x" by (auto simp: list_ex_iff)
      have big: "sum_list (group_sizes J Nj) < K" using bad b(1) False by (simp add: invalid_request_def)
      have "J \<le> sum_list (group_sizes J Nj)" using sum_list_ge_length[OF pos] b(2,4) by simp
      then show ?thesis
        using False big b(3) by (simp add: distribute_groups_def Let_def total_exact[OF pos bound])
    qed
  qed
qed

lemma distribute_groups_valid:
  assumes wf: "wf_nj Nj" and ok: "\<not> invalid_request J K Nj"
    and bound: "sum_list (group_sizes J Nj) < 2 ^ 63"
  shows "0 \<le> J" and "length (group_sizes J Nj) = nat J"
    and "\<forall>x\<in>set (group_sizes J Nj). 1 \<le> x"
    and "distribute_groups J K Nj =
      (if K < J then merge_groups J K (group_sizes J Nj) (sum_list (group_sizes J Nj))
       else if K = J then Inr \<lparr>Nk = map Some (group_sizes J Nj), Nj_k_or_Nk_j = None, j_ind_k = None\<rparr>
       else split_groups J K (group_sizes J Nj))"
    and "J < K \<longrightarrow> 0 < J"
    and "K \<le> sum_list (group_sizes J Nj)"
proof -
  have ns: "\<not> invalid_shape J Nj" and pos0: "\<not> list_ex (\<lambda>x. x \<le> 0) (group_sizes J Nj)"
    and K2: "2 \<le> K" and KN: "K \<le> sum_list (group_sizes J Nj)"
    using ok by (auto simp: invalid_request_def)
  show "K \<le> sum_list (group_sizes J Nj)" by (rule KN)
  show pos: "\<forall>x\<in>set (group_sizes J Nj). 1 \<le> x" using pos0 by (auto simp: list_ex_iff)
  have J0: "0 \<le> J \<and> check_Nj J Nj = Inr (group_sizes J Nj) \<and> length (group_sizes J Nj) = nat J"
  proof -
    from check_Nj_cases[OF wf, of J] ns consider
        (a) n where "J < 0" "Nj = NjInt n"
      | (b) "0 \<le> J" "check_Nj J Nj = Inr (group_sizes J Nj)" "length (group_sizes J Nj) = nat J"
      by blast
    then show ?thesis
    proof cases
      case a
      then have "sum_list (group_sizes J Nj) = 0" by (simp add: group_sizes_def)
      then show ?thesis using K2 KN by simp
    next
      case b
      then show ?thesis by simp
    qed
  qed
  then show "0 \<le> J" "length (group_sizes J Nj) = nat J" by simp_all
  show "distribute_groups J K Nj =
      (if K < J then merge_groups J K (group_sizes J Nj) (sum_list (group_sizes J Nj))
       else if K = J then Inr \<lparr>Nk = map Some (group_sizes J Nj), Nj_k_or_Nk_j = None, j_ind_k = None\<rparr>
       else split_groups J K (group_sizes J Nj))"
    using J0 pos0 K2 KN by (simp add: distribute_groups_def Let_def total_exact[OF pos bound])
  show "J < K \<longrightarrow> 0 < J"
  proof
    assume "J < K"
    show "0 < J"
    proof (rule ccontr)
      assume "\<not> 0 < J"
      then have "length (group_sizes J Nj) = 0" using J0 by auto
      then have "group_sizes J Nj = []" by (simp only: length_0_conv)
      then show False using K2 KN by simp
    qed
  qed
qed

lemma distribute_groups_returns:
  assumes wf: "wf_nj Nj" and ok: "\<not> invalid_request J K Nj"
    and bound: "sum_list (group_sizes J Nj) < 2 ^ 63"
  shows "\<exists>r. distribute_groups J K Nj = Inr r"
proof -
  note v = distribute_groups_valid[OF wf ok bound]
  have K2: "2 \<le> K" using ok by (simp add: invalid_request_def)
  consider "K < J" | "K = J" | "J < K" by linarith
  then show ?thesis
  proof cases
    case 1
    from merge_groups_ok(1)[OF K2 1 v(2,3) bound] show ?thesis using v(4) 1 by auto
  next
    case 2
    then show ?thesis using v(4) by simp
  next
    case 3
    then have "0 < J" using v(5) by simp
    from split_groups_ok[OF this v(2) 3 v(3,6) bound] show ?thesis using v(4) 3 by auto
  qed
qed

lemma upt_numeral: "[i..<numeral n] = (if i < numeral n then i # [Suc i..<numeral n] else [])"
  by (rule upt_rec)

lemma replicate_numeral_eq: "replicate (numeral n) x = x # replicate (pred_numeral n) x"
  by (simp add: numeral_eq_Suc)

lemmas run_lists = upt_numeral replicate_numeral_eq enumerate_eq_zip

lemmas run_distributor =
  distribute_groups_def check_Nj_def merge_groups_def adjacent_sums_def lim_of_def wrap64_def
  wrap32_def merge_step_def py_min_def py_get_def py_set_def py_add_at_def py_pop_def
  slice_assign_def slice_bound_def Let_def

text \<open>The split case on the groups of sizes 7 and 3 and five sites: the largest group is
  split twice, then the other one; the quotient \<open>7/3\<close> is not a binary64 number and is
  rounded.\<close>

lemma fl_7_3: "fl64 (7 / 3) = 5254199565265579 / 2 ^ 51"
  using fl64_exponent[of 1 "7/3"] by (simp add: round_even_def Let_def)

lemma small_float: "int_to_float 7 = 7" "int_to_float 3 = 3" "int_to_float 2 = 2" "int_to_float 1 = 1"
  using fl64_of_int[of 7] fl64_of_int[of 3] fl64_of_int[of 2] fl64_of_int[of 1]
  by (simp_all add: int_to_float_def)

lemma fl_halves: "fl64 (7 / 2) = 7 / 2" "fl64 (3 / 2) = 3 / 2"
  using fl64_exact[of "7/2" 7 "-1"] fl64_exact[of "3/2" 3 "-1"] by simp_all

lemma split_example:
  "distribute_groups 2 5 (NjArray (NdArray [2] [7, 3]))
   = Inr \<lparr>Nk = [Some 3, Some 2, Some 2, Some 2, Some 1], Nj_k_or_Nk_j = Some [3, 2], j_ind_k = None\<rparr>"
  by (simp add: run_distributor split_groups_def np_argmax_def true_divide_def small_float fl_halves fl_7_3
      floor_divide_def remainder_def numeral_2_eq_2 numeral_3_eq_3 run_lists)










text \<open>
  Claim C10. For a number of groups \<open>J \<ge> 0\<close>, passing the int \<open>n\<close> as the group-size
  argument gives exactly the results of passing the array of length \<open>J\<close> whose entries are
  all \<open>n\<close>.
\<close>

theorem distribute_groups_int_is_constant_vector:
  assumes "0 \<le> J"
  shows "distribute_groups J K (NjInt n) =
         distribute_groups J K (NjArray (NdArray [nat J] (replicate (nat J) n)))"
  using assms by (simp add: distribute_groups_def check_Nj_def)

theorem distribute_groups_int_is_constant_vector_witness:
  "(0::int) \<le> 3
   \<and> distribute_groups 3 2 (NjInt 2) = distribute_groups 3 2 (NjArray (NdArray [nat 3] (replicate (nat 3) 2)))
   \<and> distribute_groups 3 2 (NjInt 2) =
       Inr \<lparr>Nk = [Some 4, Some 2], Nj_k_or_Nk_j = Some [2, 1],
            j_ind_k = Some [Some 0, Some 0, Some 1, Some 1, Some 0, Some 0]\<rparr>"
proof -
  have h: "(0::int) \<le> 3" by simp
  have e: "distribute_groups 3 2 (NjInt 2) =
       Inr \<lparr>Nk = [Some 4, Some 2], Nj_k_or_Nk_j = Some [2, 1],
            j_ind_k = Some [Some 0, Some 0, Some 1, Some 1, Some 0, Some 0]\<rparr>"
    by (simp add: run_distributor numeral_2_eq_2 numeral_3_eq_3 run_lists)
  from distribute_groups_int_is_constant_vector[OF h, of 2 2] e show ?thesis by simp
qed

section \<open>Properties of the converter and the shrinkage estimator\<close>

lemma is_matrix_nth: "is_matrix n m A \<Longrightarrow> i < n \<Longrightarrow> length (A ! i) = m"
  by (simp add: is_matrix_def list_all_length)

lemma is_matrix_iff: "is_matrix n m A \<longleftrightarrow> length A = n \<and> (\<forall>i<n. length (A ! i) = m)"
  by (auto simp: is_matrix_def list_all_length)

lemma symmetric_mat_iff:
  "symmetric_mat M \<longleftrightarrow>
     is_matrix (length M) (length M) M \<and> (\<forall>i<length M. \<forall>j<length M. M ! i ! j = M ! j ! i)"
  by (auto simp: symmetric_mat_def list_all_iff)

lemma length_mat_of_fun [simp]: "length (mat_of_fun n m f) = n"
  by (simp add: mat_of_fun_def)

lemma nth_mat_of_fun_row [simp]: "i < n \<Longrightarrow> mat_of_fun n m f ! i = map (f i) [0..<m]"
  by (simp add: mat_of_fun_def)

lemma is_matrix_mat_of_fun [simp]: "is_matrix n m (mat_of_fun n m f)"
  by (simp add: is_matrix_iff)

lemma symmetric_mat_of_fun:
  "(\<And>i j. i < n \<Longrightarrow> j < n \<Longrightarrow> f i j = f j i) \<Longrightarrow> symmetric_mat (mat_of_fun n n f)"
  by (simp add: symmetric_mat_iff)

lemma symmetric_copy_triu_to_tril: "symmetric_mat (copy_triu_to_tril n R)"
  unfolding copy_triu_to_tril_def by (rule symmetric_mat_of_fun) auto

lemma length_copy_triu_to_tril [simp]: "length (copy_triu_to_tril n R) = n"
  by (simp add: copy_triu_to_tril_def)

lemma invert_normal_params_result:
  assumes "invert_normal_params L A b out_A out_b cho_form = Inr (Q, r)"
  shows "\<exists>R. data Q = copy_triu_to_tril (length (data Q)) R"
  using assms unfolding invert_normal_params_def
  by (auto simp: bindE_def nrows_def Let_def split: sum.splits if_splits prod.splits)

lemma invert_normal_params_symmetric:
  assumes "invert_normal_params L A b out_A out_b cho_form = Inr (Q, r)"
  shows "symmetric_mat (data Q)"
  using invert_normal_params_result[OF assms] symmetric_copy_triu_to_tril by metis

lemma stride_diag:
  assumes "i < d" "j < (d::nat)"
  shows "(i * d + j) mod (d + 1) = 0 \<longleftrightarrow> i = j"
proof
  assume "i = j"
  then have "i * d + j = i * (d + 1)" by (simp add: add_mult_distrib2)
  then show "(i * d + j) mod (d + 1) = 0" by (metis mod_mult_self2_is_0)
next
  assume a: "(i * d + j) mod (d + 1) = 0"
  show "i = j"
  proof (cases "i \<le> j")
    case True
    then have "i * d + j = i * (d + 1) + (j - i)" by simp
    then have "(j - i) mod (d + 1) = 0" using a by (metis mod_mult_self3)
    moreover have "j - i < d + 1" using assms by simp
    ultimately show ?thesis using True by simp
  next
    case False
    then obtain k where k: "i = Suc k" by (cases i) auto
    have kd: "k < d" "j \<le> k" using k False assms by simp_all
    have "i * d + j = k * (d + 1) + (d + j - k)"
      using kd unfolding k by (simp add: add_mult_distrib2)
    then have "(d + j - k) mod (d + 1) = 0" using a by (metis mod_mult_self3)
    moreover have "d + j - k < d + 1" "0 < d + j - k" using kd by simp_all
    ultimately show ?thesis by simp
  qed
qed

lemma ncols_square: "is_matrix n n A \<Longrightarrow> ncols A = n"
  by (cases A) (auto simp: ncols_def is_matrix_def)

lemma scale_mat_props:
  assumes "is_matrix n m A"
  shows "is_matrix n m (scale_mat A c)"
    and "\<And>i j. i < n \<Longrightarrow> j < m \<Longrightarrow> scale_mat A c ! i ! j = A ! i ! j * c"
  using assms by (auto simp: scale_mat_def is_matrix_iff)

lemma same_shape_is_matrix: "same_shape A B \<Longrightarrow> is_matrix n m A \<Longrightarrow> is_matrix n m B"
proof -
  assume s: "same_shape A B" and m: "is_matrix n m A"
  have l: "length B = length A" using s unfolding same_shape_def by (metis length_map)
  have "\<forall>i<length A. length (B ! i) = length (A ! i)"
    using s l unfolding same_shape_def by (metis nth_map)
  then show ?thesis using m l by (simp add: is_matrix_iff)
qed

lemma add_elem_props:
  assumes "is_matrix n m A" "is_matrix n m B"
  shows "is_matrix n m (add_elem A B)"
    and "\<And>i j. i < n \<Longrightarrow> j < m \<Longrightarrow> add_elem A B ! i ! j = A ! i ! j + B ! i ! j"
  using assms by (auto simp: add_elem_def is_matrix_iff)

lemma mat_eqI:
  assumes "is_matrix n m A" "is_matrix n m B" "\<And>i j. i < n \<Longrightarrow> j < m \<Longrightarrow> A ! i ! j = B ! i ! j"
  shows "A = B"
proof (rule nth_equalityI)
  show "length A = length B" using assms(1,2) by (simp add: is_matrix_iff)
next
  fix i assume "i < length A"
  then have i: "i < n" using assms(1) by (simp add: is_matrix_iff)
  show "A ! i = B ! i"
    using assms i by (intro nth_equalityI) (auto simp: is_matrix_iff)
qed

lemma sum_list_upt_delta:
  "i < d \<Longrightarrow> sum_list (map (\<lambda>j. if i = j then f j else (0::real)) [0..<d]) = f i"
  by (simp add: interv_sum_list_conv_sum_set_nat)

lemma sum_list_upt_delta':
  "i < d \<Longrightarrow> sum_list (map (\<lambda>j. if j = i then f j else (0::real)) [0..<d]) = f i"
  by (simp add: interv_sum_list_conv_sum_set_nat)

lemma mat_of_fun_cong:
  "(\<And>i j. i < n \<Longrightarrow> j < m \<Longrightarrow> f i j = g i j) \<Longrightarrow> mat_of_fun n m f = mat_of_fun n m g"
  by (simp add: mat_of_fun_def)

lemma nth_mat_of_fun [simp]: "i < n \<Longrightarrow> j < m \<Longrightarrow> mat_of_fun n m f ! i ! j = f i j"
  by simp

lemma ncols_mat_of_fun: "0 < n \<Longrightarrow> ncols (mat_of_fun n m f) = m"
  by (simp add: ncols_def mat_of_fun_def upt_conv_Cons split: list.splits)

lemma nrows_mat_of_fun [simp]: "nrows (mat_of_fun n m f) = n"
  by (simp add: nrows_def)

lemma is_matrix_naive_prior [simp]: "is_matrix d d (naive_prior d)"
  by (simp add: naive_prior_def)

lemma transpose_naive_prior: "0 < d \<Longrightarrow> transpose_mat (naive_prior d) = naive_prior d"
  unfolding transpose_mat_def naive_prior_def
  by (simp add: ncols_mat_of_fun) (rule mat_of_fun_cong, auto)

lemma sum_list_const_upt: "sum_list (map (\<lambda>i. c) [0..<d]) = real d * c"
  by (induction d) (auto simp: algebra_simps)

lemma fro_naive_prior: "0 < d \<Longrightarrow> fro_norm_squared (naive_prior d) = 1 / real d"
proof -
  assume d: "0 < d"
  have in1: "\<And>i. i < d \<Longrightarrow>
      sum_list (map (\<lambda>j. (if i = j then 1 / real d else 0) * (if i = j then 1 / real d else 0)) [0..<d])
      = (1 / real d) * (1 / real d)"
  proof -
    fix i assume i: "i < d"
    have "(\<lambda>j. (if i = j then 1 / real d else 0) * (if i = j then 1 / real d else 0))
        = (\<lambda>j. if i = j then (1 / real d) * (1 / real d) else 0)" by auto
    then show "sum_list (map (\<lambda>j. (if i = j then 1 / real d else 0) * (if i = j then 1 / real d else 0)) [0..<d])
      = (1 / real d) * (1 / real d)"
      using sum_list_upt_delta[OF i, of "\<lambda>_. (1 / real d) * (1 / real d)"] by simp
  qed
  have "fro_norm_squared (naive_prior d) =
      sum_list (map (\<lambda>i. sum_list (map (\<lambda>j. (if i = j then 1 / real d else 0) * (if i = j then 1 / real d else 0)) [0..<d])) [0..<d])"
    by (simp add: fro_norm_squared_def naive_prior_def mat_of_fun_def comp_def)
  also have "\<dots> = sum_list (map (\<lambda>i. (1 / real d) * (1 / real d)) [0..<d])"
    using in1 by (intro arg_cong[where f = sum_list] map_cong) auto
  also have "\<dots> = 1 / real d" using d by (simp add: sum_list_const_upt)
  finally show ?thesis .
qed

lemma mul_elem_mat:
  assumes "is_matrix n m A" "is_matrix n m B"
  shows "mul_elem A B = mat_of_fun n m (\<lambda>i j. A ! i ! j * B ! i ! j)"
proof (rule mat_eqI[where n = n and m = m])
  show "is_matrix n m (mul_elem A B)" using assms by (auto simp: mul_elem_def is_matrix_iff)
  show "is_matrix n m (mat_of_fun n m (\<lambda>i j. A ! i ! j * B ! i ! j))" by simp
  fix i j assume "i < n" "j < m"
  then show "mul_elem A B ! i ! j = mat_of_fun n m (\<lambda>i j. A ! i ! j * B ! i ! j) ! i ! j"
    using assms by (auto simp: mul_elem_def is_matrix_iff)
qed

lemma sum_list_divide_const:
  "sum_list (map (\<lambda>i. f i / (c::real)) xs) = sum_list (map f xs) / c"
  by (induction xs) (auto simp: add_divide_distrib)

lemma trSP_naive_prior:
  assumes "is_matrix d d B"
  shows "sum_mat (mul_elem B (naive_prior d)) = trace_mat B / real d"
proof -
  have nc: "ncols B = d" using assms by (rule ncols_square)
  have nr: "nrows B = d" using assms by (simp add: nrows_def is_matrix_iff)
  have in1: "\<And>i. i < d \<Longrightarrow>
      sum_list (map (\<lambda>j. B ! i ! j * naive_prior d ! i ! j) [0..<d]) = B ! i ! i / real d"
  proof -
    fix i assume i: "i < d"
    have "map (\<lambda>j. B ! i ! j * naive_prior d ! i ! j) [0..<d]
        = map (\<lambda>j. if i = j then B ! i ! j / real d else 0) [0..<d]"
      using i by (intro map_cong) (auto simp: naive_prior_def)
    then have "sum_list (map (\<lambda>j. B ! i ! j * naive_prior d ! i ! j) [0..<d])
        = sum_list (map (\<lambda>j. if i = j then B ! i ! j / real d else 0) [0..<d])" by (rule arg_cong)
    then show "sum_list (map (\<lambda>j. B ! i ! j * naive_prior d ! i ! j) [0..<d]) = B ! i ! i / real d"
      using sum_list_upt_delta[OF i, of "\<lambda>j. B ! i ! j / real d"] by (simp only:)
  qed
  have "sum_mat (mul_elem B (naive_prior d)) =
      sum_list (map (\<lambda>i. sum_list (map (\<lambda>j. B ! i ! j * naive_prior d ! i ! j) [0..<d])) [0..<d])"
    unfolding mul_elem_mat[OF assms is_matrix_naive_prior]
    by (simp add: sum_mat_def mat_of_fun_def comp_def)
  also have "\<dots> = sum_list (map (\<lambda>i. B ! i ! i / real d) [0..<d])"
    using in1 by (intro arg_cong[where f = sum_list] map_cong) auto
  also have "\<dots> = trace_mat B / real d"
    by (simp add: trace_mat_def nc nr sum_list_divide_const)
  finally show ?thesis .
qed

lemma is_matrix_same_shape: "is_matrix n m A \<Longrightarrow> is_matrix n m B \<Longrightarrow> same_shape A B"
  unfolding same_shape_def by (rule nth_equalityI) (auto simp: is_matrix_iff)

lemma naive_prior_arith:
  fixes ff tr :: real and d :: nat
  assumes "0 < d"
  shows "ff * (1 / real d) - (tr / real d)\<^sup>2 = (ff - tr\<^sup>2 / real d) / real d"
    and "tr\<^sup>2 * (1 / real d) / (ff * (1 / real d) - (tr / real d)\<^sup>2) = tr\<^sup>2 / (ff - tr\<^sup>2 / real d)"
    and "tr / real d / (1 / real d) = tr"
proof -
  have d: "real d \<noteq> 0" using assms by simp
  show 1: "ff * (1 / real d) - (tr / real d)\<^sup>2 = (ff - tr\<^sup>2 / real d) / real d"
    using d by (simp add: field_simps power2_eq_square)
  show "tr\<^sup>2 * (1 / real d) / (ff * (1 / real d) - (tr / real d)\<^sup>2) = tr\<^sup>2 / (ff - tr\<^sup>2 / real d)"
    unfolding 1 using d by simp
  show "tr / real d / (1 / real d) = tr" using d by simp
qed

lemma prepare_out_data: "prepare_out out S = Inr out1 \<Longrightarrow> data out1 = data S"
  by (auto simp: prepare_out_def split: out_arg.splits if_splits)

lemma nrows_transpose_square: "is_matrix d d A \<Longrightarrow> nrows (transpose_mat A) = d"
  by (simp add: transpose_mat_def ncols_square)

lemma invert_in_place_F:
  assumes "invert_normal_params L A None In_place out_b False = Inr (Q, r)"
    and "layout A = F_contiguous"
  shows "\<exists>R. data Q = copy_triu_to_tril (nrows (data A)) R"
  using assms unfolding invert_normal_params_def
  by (auto simp: bindE_def prepare_out_def Let_def split: sum.splits if_splits prod.splits)

lemma upt_0_2: "[0..<2] = [0, Suc 0]"
  by (simp add: upt_rec)

lemmas run_lapack_ref =
  lapack_ref_def ref_cho_factor_def ref_cho_solve_def ref_potri_def zero_on_diagonal_def
  unit_vec_def is_matrix_def mat_of_fun_def copy_triu_to_tril_def nrows_def ncols_def
  upt_0_2 Let_def

lemmas run_converter =
  invert_normal_params_def prepare_out_def prepare_out_vec_def array_T_def transpose_mat_def

lemma invert_example:
  "invert_normal_params lapack_ref \<lparr>data = [[4, 2], [2, 2]], layout = F_contiguous\<rparr> (Some [2, 0])
       New_array New_array False
   = Inr (\<lparr>data = [[1/2, -1/2], [-1/2, 1]], layout = F_contiguous\<rparr>, Some [1, -1])"
  by (simp add: run_converter run_lapack_ref)

section \<open>Properties of the shrinkage estimator\<close>

lemma fadd_zero_right [simp]: "fadd v (Fin 0) = v"
  by (cases v) simp_all

lemma fmul_zero_nonfinite: "\<not> is_finite a \<Longrightarrow> fmul (Fin 0) a = NaN" "\<not> is_finite a \<Longrightarrow> fmul a (Fin 0) = NaN"
  by (cases a; simp add: is_finite_def signed_inf_def)+

lemma fmul_inverse: "0 < c \<Longrightarrow> fmul b (Fin (1 / c)) = fdiv b (Fin c)"
  by (cases b) (simp_all add: signed_inf_def)

lemma fdiv_common: "0 < c \<Longrightarrow> fdiv (Fin (a / c)) (Fin (b / c)) = fdiv (Fin a) (Fin b)"
  by (simp add: signed_inf_def zero_less_divide_iff)

lemma is_finite_Fin [simp]: "is_finite (Fin x)"
  by (simp add: is_finite_def)

lemma is_finiteE: "is_finite a \<Longrightarrow> \<exists>x. a = Fin x"
  by (cases a) (simp_all add: is_finite_def)

lemma fmat_eqI:
  assumes "length A = n" "length B = n" "\<forall>i<n. length (A ! i) = m" "\<forall>i<n. length (B ! i) = m"
    and "\<And>i j. i < n \<Longrightarrow> j < m \<Longrightarrow> A ! i ! j = B ! i ! j"
  shows "A = (B :: fmat)"
proof (rule nth_equalityI)
  show "length A = length B" using assms(1,2) by simp
next
  fix i assume "i < length A"
  then have i: "i < n" using assms(1) by simp
  show "A ! i = B ! i"
    using assms i by (intro nth_equalityI) auto
qed

lemma fscale_props:
  assumes "is_matrix n m A"
  shows "length (fscale A c) = n"
    and "\<forall>i<n. length (fscale A c ! i) = m"
    and "\<And>i j. i < n \<Longrightarrow> j < m \<Longrightarrow> fscale A c ! i ! j = fmul (Fin (A ! i ! j)) c"
  using assms by (auto simp: fscale_def is_matrix_iff)

lemma fscale_by_props:
  assumes "is_matrix n m A"
  shows "length (fscale_by c A) = n"
    and "\<forall>i<n. length (fscale_by c A ! i) = m"
    and "\<And>i j. i < n \<Longrightarrow> j < m \<Longrightarrow> fscale_by c A ! i ! j = fmul c (Fin (A ! i ! j))"
  using assms by (auto simp: fscale_by_def is_matrix_iff)

lemma fadd_flat_stride_props:
  assumes "length A = n" "\<forall>i<n. length (A ! i) = n"
  shows "length (fadd_flat_stride n A c) = n"
    and "\<forall>i<n. length (fadd_flat_stride n A c ! i) = n"
    and "\<And>i j. i < n \<Longrightarrow> j < n \<Longrightarrow>
           fadd_flat_stride n A c ! i ! j = (if i = j then fadd (A ! i ! j) c else A ! i ! j)"
proof -
  show "length (fadd_flat_stride n A c) = n" using assms by (simp add: fadd_flat_stride_def)
  show "\<forall>i<n. length (fadd_flat_stride n A c ! i) = n"
    using assms by (simp add: fadd_flat_stride_def nth_enumerate_eq)
  fix i j assume ij: "i < n" "j < n"
  then show "fadd_flat_stride n A c ! i ! j = (if i = j then fadd (A ! i ! j) c else A ! i ! j)"
    using assms stride_diag[OF ij]
    by (auto simp: fadd_flat_stride_def nth_enumerate_eq)
qed

lemma fadd_elem_props:
  assumes "length A = n" "length B = n" "\<forall>i<n. length (A ! i) = m" "\<forall>i<n. length (B ! i) = m"
  shows "length (fadd_elem A B) = n"
    and "\<forall>i<n. length (fadd_elem A B ! i) = m"
    and "\<And>i j. i < n \<Longrightarrow> j < m \<Longrightarrow> fadd_elem A B ! i ! j = fadd (A ! i ! j) (B ! i ! j)"
  using assms by (auto simp: fadd_elem_def)

lemma broadcast_to_same:
  assumes "is_matrix n m P" "0 < n"
  shows "broadcast_to n m P = Some P"
proof -
  have nr: "nrows P = n" using assms by (simp add: nrows_def is_matrix_iff)
  have nc: "ncols P = m" using assms by (cases P) (auto simp: ncols_def is_matrix_def)
  have "mat_of_fun n m (\<lambda>i j. P ! (if n = 1 then 0 else i) ! (if m = 1 then 0 else j)) = P"
  proof (rule mat_eqI[where n = n and m = m])
    show "is_matrix n m (mat_of_fun n m (\<lambda>i j. P ! (if n = 1 then 0 else i) ! (if m = 1 then 0 else j)))"
      by simp
    show "is_matrix n m P" by (rule assms)
    fix i j assume "i < n" "j < m"
    then show "mat_of_fun n m (\<lambda>i j. P ! (if n = 1 then 0 else i) ! (if m = 1 then 0 else j)) ! i ! j = P ! i ! j"
      by auto
  qed
  then show ?thesis using assms by (simp add: broadcast_to_def nr nc)
qed

lemma sum_list_upt_sum: "sum_list (map f [0..<d]) = (\<Sum>i<d. f i)" for f :: "nat \<Rightarrow> real"
  by (simp add: interv_sum_list_conv_sum_set_nat atLeast0LessThan)

lemma fro_transpose_sum:
  assumes "is_matrix d d B"
  shows "fro_norm_squared (transpose_mat B) = (\<Sum>i<d. \<Sum>j<d. (B ! i ! j)\<^sup>2)"
proof -
  have nc: "ncols B = d" using assms by (rule ncols_square)
  have nr: "nrows B = d" using assms by (simp add: nrows_def is_matrix_iff)
  have "fro_norm_squared (transpose_mat B) = (\<Sum>i<d. \<Sum>j<d. (B ! j ! i)\<^sup>2)"
    by (simp add: fro_norm_squared_def transpose_mat_def nc nr mat_of_fun_def comp_def
        sum_list_upt_sum power2_eq_square)
  also have "\<dots> = (\<Sum>i<d. \<Sum>j<d. (B ! i ! j)\<^sup>2)" by (rule sum.swap)
  finally show ?thesis .
qed

lemma trace_sum:
  assumes "is_matrix d d B"
  shows "trace_mat B = (\<Sum>i<d. B ! i ! i)"
proof -
  have nc: "ncols B = d" using assms by (rule ncols_square)
  have nr: "nrows B = d" using assms by (simp add: nrows_def is_matrix_iff)
  show ?thesis by (simp add: trace_mat_def nc nr sum_list_upt_sum)
qed

text \<open>The denominator of the naive shrinkage is zero only for a multiple of the identity:
  it is the sum of the squares of the entries off the diagonal and of the squared
  deviations of the diagonal entries from their mean.\<close>

lemma zero_denominator_off_diagonal:
  assumes m: "is_matrix d d B" and d: "0 < d"
    and z: "fro_norm_squared (transpose_mat B) - (trace_mat B)\<^sup>2 / real d = 0"
    and ij: "i < d" "j < d" "i \<noteq> j"
  shows "B ! i ! j = 0"
proof -
  define tr where "tr = (\<Sum>i<d. B ! i ! i)"
  define mu where "mu = tr / real d"
  define g where "g = (\<lambda>i j. if i = j then (B ! i ! i - mu)\<^sup>2 else (B ! i ! j)\<^sup>2)"
  have g0: "\<And>i j. 0 \<le> g i j" by (simp add: g_def)
  have row: "\<And>i. i < d \<Longrightarrow> (\<Sum>j<d. g i j) = (\<Sum>j<d. (B ! i ! j)\<^sup>2) + ((B ! i ! i - mu)\<^sup>2 - (B ! i ! i)\<^sup>2)"
  proof -
    fix i assume i: "i < d"
    have "(\<Sum>j<d. g i j) = (\<Sum>j<d. (B ! i ! j)\<^sup>2 + (if i = j then (B ! i ! i - mu)\<^sup>2 - (B ! i ! i)\<^sup>2 else 0))"
      by (intro sum.cong refl) (simp add: g_def)
    also have "\<dots> = (\<Sum>j<d. (B ! i ! j)\<^sup>2) + (\<Sum>j<d. if i = j then (B ! i ! i - mu)\<^sup>2 - (B ! i ! i)\<^sup>2 else 0)"
      by (rule sum.distrib)
    also have "(\<Sum>j<d. if i = j then (B ! i ! i - mu)\<^sup>2 - (B ! i ! i)\<^sup>2 else 0)
        = (B ! i ! i - mu)\<^sup>2 - (B ! i ! i)\<^sup>2" using i by simp
    finally show "(\<Sum>j<d. g i j) = (\<Sum>j<d. (B ! i ! j)\<^sup>2) + ((B ! i ! i - mu)\<^sup>2 - (B ! i ! i)\<^sup>2)" .
  qed
  have dev: "(\<Sum>i<d. (B ! i ! i - mu)\<^sup>2 - (B ! i ! i)\<^sup>2) = - (tr\<^sup>2 / real d)"
  proof -
    have "(\<Sum>i<d. (B ! i ! i - mu)\<^sup>2 - (B ! i ! i)\<^sup>2) = (\<Sum>i<d. mu\<^sup>2 - 2 * mu * B ! i ! i)"
      by (intro sum.cong refl) (simp add: power2_eq_square algebra_simps)
    also have "\<dots> = real d * mu\<^sup>2 - 2 * mu * tr"
      by (simp add: sum_subtractf sum_distrib_left tr_def)
    also have "\<dots> = - (tr\<^sup>2 / real d)" using d by (simp add: mu_def power2_eq_square field_simps)
    finally show ?thesis .
  qed
  have "(\<Sum>i<d. \<Sum>j<d. g i j) = (\<Sum>i<d. (\<Sum>j<d. (B ! i ! j)\<^sup>2) + ((B ! i ! i - mu)\<^sup>2 - (B ! i ! i)\<^sup>2))"
    using row by (intro sum.cong refl) simp
  also have "\<dots> = (\<Sum>i<d. \<Sum>j<d. (B ! i ! j)\<^sup>2) + (\<Sum>i<d. (B ! i ! i - mu)\<^sup>2 - (B ! i ! i)\<^sup>2)"
    by (rule sum.distrib)
  also have "\<dots> = fro_norm_squared (transpose_mat B) - (trace_mat B)\<^sup>2 / real d"
    unfolding dev fro_transpose_sum[OF m] trace_sum[OF m] tr_def by simp
  finally have "(\<Sum>i<d. \<Sum>j<d. g i j) = 0" using z by simp
  then have "\<forall>i\<in>{..<d}. (\<Sum>j<d. g i j) = 0"
    by (subst (asm) sum_nonneg_eq_0_iff) (auto intro: sum_nonneg g0)
  then have "(\<Sum>j<d. g i j) = 0" using ij(1) by simp
  then have "\<forall>j\<in>{..<d}. g i j = 0"
    by (subst (asm) sum_nonneg_eq_0_iff) (auto intro: g0)
  then have "g i j = 0" using ij(2) by simp
  then show ?thesis using ij(3) by (simp add: g_def)
qed

lemma naive_entries:
  assumes mB: "is_matrix d d B" and d: "0 < d" and n: "n \<noteq> 0"
  defines "den \<equiv> fro_norm_squared (transpose_mat B) - (trace_mat B)\<^sup>2 / real d"
  defines "alpha \<equiv> fsub (Fin 1) (fdiv (fadd (Fin (real d)) (fdiv (Fin ((trace_mat B)\<^sup>2)) (Fin den)))
                                       (Fin (real_of_int n)))"
  defines "beta \<equiv> fmul (Fin (trace_mat B)) (fsub (Fin (1 - real d / real_of_int n)) alpha)"
  shows "fadd_elem (fscale B alpha) (fscale_by beta (naive_prior d))
       = fadd_flat_stride d (fscale B alpha) (fdiv beta (Fin (real d)))"
proof (rule fmat_eqI[where n = d and m = d])
  note sc = fscale_props[OF mB, where c = alpha]
  note sp = fscale_by_props[OF is_matrix_naive_prior[of d], where c = beta]
  note ae = fadd_elem_props[OF sc(1) sp(1) sc(2) sp(2)]
  note af = fadd_flat_stride_props[OF sc(1) sc(2), where c = "fdiv beta (Fin (real d))"]
  show "length (fadd_elem (fscale B alpha) (fscale_by beta (naive_prior d))) = d" by (rule ae(1))
  show "length (fadd_flat_stride d (fscale B alpha) (fdiv beta (Fin (real d)))) = d" by (rule af(1))
  show "\<forall>i<d. length (fadd_elem (fscale B alpha) (fscale_by beta (naive_prior d)) ! i) = d"
    by (rule ae(2))
  show "\<forall>i<d. length (fadd_flat_stride d (fscale B alpha) (fdiv beta (Fin (real d))) ! i) = d"
    by (rule af(2))
  fix i j assume ij: "i < d" "j < d"
  have fin_b: "is_finite alpha \<Longrightarrow> is_finite beta"
    by (auto dest!: is_finiteE simp: beta_def fsub_def)
  have fin_a: "den \<noteq> 0 \<Longrightarrow> is_finite alpha"
    using n by (simp add: alpha_def fsub_def)
  show "fadd_elem (fscale B alpha) (fscale_by beta (naive_prior d)) ! i ! j
      = fadd_flat_stride d (fscale B alpha) (fdiv beta (Fin (real d))) ! i ! j"
  proof (cases "i = j")
    case True
    then show ?thesis
      unfolding ae(3)[OF ij] af(3)[OF ij] sc(3)[OF ij] sp(3)[OF ij]
      using ij d fmul_inverse[of "real d" beta] by (simp add: naive_prior_def)
  next
    case False
    have "fadd (fmul (Fin (B ! i ! j)) alpha) (fmul beta (Fin 0)) = fmul (Fin (B ! i ! j)) alpha"
    proof (cases "is_finite beta")
      case True
      then obtain b where "beta = Fin b" using is_finiteE by blast
      then show ?thesis by simp
    next
      case nb: False
      then have na: "\<not> is_finite alpha" using fin_b by blast
      then have "den = 0" using fin_a by blast
      then have "B ! i ! j = 0"
        using zero_denominator_off_diagonal[OF mB d _ ij False] by (simp add: den_def)
      then show ?thesis using na nb by (simp add: fmul_zero_nonfinite)
    qed
    then show ?thesis
      unfolding ae(3)[OF ij] af(3)[OF ij] sc(3)[OF ij] sp(3)[OF ij]
      using ij False by (simp add: naive_prior_def)
  qed
qed

lemma olse_shrink_naive_prior:
  assumes m: "is_matrix d d (data out3)" and d: "0 < d"
  shows "olse_shrink d n (Some (naive_prior d)) out3 = olse_shrink d n None out3"
proof -
  define B where "B = data out3"
  define ff where "ff = fro_norm_squared (transpose_mat B)"
  define tr where "tr = trace_mat B"
  define den where "den = ff - tr\<^sup>2 / real d"
  define alpha where "alpha = fsub (Fin 1) (fdiv (fadd (Fin (real d)) (fdiv (Fin (tr\<^sup>2)) (Fin den)))
                                       (Fin (real_of_int n)))"
  define beta where "beta = fmul (Fin tr) (fsub (Fin (1 - real d / real_of_int n)) alpha)"
  have mB: "is_matrix d d B" using m by (simp add: B_def)
  have nc: "ncols B = d" using mB by (rule ncols_square)
  have nr: "nrows B = d" using mB by (simp add: nrows_def is_matrix_iff)
  have bc: "broadcast_to d d (naive_prior d) = Some (naive_prior d)"
    using d by (intro broadcast_to_same) simp_all
  have f2p: "fro_norm_squared (transpose_mat (naive_prior d)) = 1 / real d"
    using d by (simp add: transpose_naive_prior fro_naive_prior)
  have trSP: "sum_mat (mul_elem B (naive_prior d)) = tr / real d"
    unfolding tr_def using mB by (rule trSP_naive_prior)
  note ar = naive_prior_arith[OF d]
  have dn: "real d \<noteq> 0" using d by simp
  have q1: "fsub (Fin ff) (fdiv (Fin (tr\<^sup>2)) (Fin (real d))) = Fin den"
    using dn by (simp add: den_def fsub_def)
  have q2: "fdiv (Fin (tr\<^sup>2 * (1 / real d))) (Fin (ff * (1 / real d) - (tr / real d)\<^sup>2))
          = fdiv (Fin (tr\<^sup>2)) (Fin den)"
    unfolding ar(1) den_def[symmetric] using fdiv_common[of "real d" "tr\<^sup>2" den] d by simp
  have q3: "fdiv (Fin (tr / real d)) (Fin (1 / real d)) = Fin tr"
    using dn by simp
  have R: "olse_shrink d n None out3 =
      (if n = 0 then Inl ZeroDivisionError
       else Inr \<lparr>entries = fadd_flat_stride d (fscale B alpha) (fdiv beta (Fin (real d))),
                 order = layout out3\<rparr>)"
    unfolding olse_shrink_def Let_def B_def[symmetric] ff_def[symmetric] tr_def[symmetric] q1
      alpha_def[symmetric] beta_def[symmetric] nc
    by (simp only: option.case)
  have L: "olse_shrink d n (Some (naive_prior d)) out3 =
      (if n = 0 then Inl ZeroDivisionError
       else Inr \<lparr>entries = fadd_elem (fscale B alpha) (fscale_by beta (naive_prior d)),
                 order = layout out3\<rparr>)"
    unfolding olse_shrink_def Let_def B_def[symmetric] ff_def[symmetric] tr_def[symmetric] nc nr
    by (simp only: option.case bc f2p trSP q2 q3 alpha_def[symmetric] beta_def[symmetric])
  show ?thesis
  proof (cases "n = 0")
    case True
    then show ?thesis unfolding L R by simp
  next
    case False
    have "fadd_elem (fscale B alpha) (fscale_by beta (naive_prior d))
        = fadd_flat_stride d (fscale B alpha) (fdiv beta (Fin (real d)))"
      unfolding alpha_def beta_def den_def ff_def tr_def
      by (rule naive_entries[OF mB d False])
    then show ?thesis unfolding L R by simp
  qed
qed

lemmas run_olse =
  olse_def olse_shrink_def farray_def trace_mat_def fro_norm_squared_def fscale_def fscale_by_def
  fadd_flat_stride_def fadd_elem_def mul_elem_def sum_mat_def broadcast_to_def fsub_def signed_inf_def
  enumerate_eq_zip

lemma olse_naive_example:
  "olse lapack_ref \<lparr>data = [[4, 2], [2, 2]], layout = F_contiguous\<rparr> 10 None New_array
   = Inr \<lparr>entries = [[Fin (49/100), Fin (-22/100)], [Fin (-22/100), Fin (71/100)]], order = F_contiguous\<rparr>"
  by (simp add: run_olse run_converter run_lapack_ref power2_eq_square)

lemma olse_informed_example:
  "olse lapack_ref \<lparr>data = [[4, 2], [2, 2]], layout = F_contiguous\<rparr> 10 (Some [[1/2, 0], [0, 1/2]]) New_array
   = Inr \<lparr>entries = [[Fin (49/100), Fin (-22/100)], [Fin (-22/100), Fin (71/100)]], order = F_contiguous\<rparr>"
  by (simp add: run_olse run_converter run_lapack_ref power2_eq_square)

lemma olse_nan_example:
  "olse lapack_ref \<lparr>data = [[2, 0], [0, 2]], layout = F_contiguous\<rparr> 10 None New_array
   = Inr \<lparr>entries = [[NaN, NaN], [NaN, NaN]], order = F_contiguous\<rparr>"
  by (simp add: run_olse run_converter run_lapack_ref power2_eq_square)

lemma olse_1x1_example:
  "olse lapack_ref \<lparr>data = [[2]], layout = F_contiguous\<rparr> 10 None New_array = Inl ValueError"
  by (simp add: run_olse run_converter run_lapack_ref)



section \<open>Properties of the control-variate moment estimator\<close>

lemma ncols_is_matrix: "is_matrix n m A \<Longrightarrow> 0 < n \<Longrightarrow> ncols A = m"
  by (cases A) (auto simp: ncols_def is_matrix_def)

lemma nrows_is_matrix: "is_matrix n m A \<Longrightarrow> nrows A = n"
  by (simp add: nrows_def is_matrix_iff)

lemma transpose_mat_eq: "is_matrix n m A \<Longrightarrow> 0 < n \<Longrightarrow> transpose_mat A = mat_of_fun m n (\<lambda>i j. A ! j ! i)"
  by (simp add: transpose_mat_def ncols_is_matrix nrows_is_matrix)

lemma mat_mul_eq:
  "is_matrix n k A \<Longrightarrow> is_matrix k m B \<Longrightarrow> 0 < n \<Longrightarrow> 0 < k \<Longrightarrow>
   mat_mul A B = mat_of_fun n m (\<lambda>i j. sum_list (map (\<lambda>l. A ! i ! l * B ! l ! j) [0..<k]))"
  by (simp add: mat_mul_def ncols_is_matrix nrows_is_matrix)

lemma sub_row_props:
  assumes "is_matrix n d X" "length v = d"
  shows "is_matrix n d (sub_row X v)"
    and "\<And>k i. k < n \<Longrightarrow> i < d \<Longrightarrow> sub_row X v ! k ! i = X ! k ! i - v ! i"
  using assms by (auto simp: sub_row_def is_matrix_iff)

lemma sample_mean_col_sums:
  "map (\<lambda>s. s / real_of_int (int (nrows X))) (col_sums d X) = sample_mean d X"
  by (simp add: sample_mean_def col_sums_def nrows_def)

lemma sum_list_rows: "sum_list (map f X) = sum_list (map (\<lambda>k. f (X ! k)) [0..<length X])"
proof -
  have "map f X = map f (map ((!) X) [0..<length X])" by (simp only: map_nth)
  then show ?thesis by (simp add: comp_def)
qed

lemma fallback_cov:
  assumes m: "is_matrix n d X" and n: "2 \<le> n"
  defines "X1 \<equiv> sub_row X (sample_mean d X)"
  shows "map (map (\<lambda>x. x / real_of_int (int n - 1))) (transpose_mat (mat_mul (transpose_mat X1) X1))
       = sample_cov d X"
proof (cases "d = 0")
  case True
  have "X1 = replicate n []"
    using m True unfolding X1_def sub_row_def sample_mean_def
    by (intro nth_equalityI) (auto simp: is_matrix_iff)
  moreover have "ncols (replicate n ([] :: real list)) = 0" by (cases n) (auto simp: ncols_def)
  ultimately have "transpose_mat X1 = []" by (simp add: transpose_mat_def mat_of_fun_def)
  then show ?thesis using True
    by (simp add: mat_mul_def transpose_mat_def sample_cov_def mat_of_fun_def nrows_def ncols_def)
next
  case False
  then have d: "0 < d" by simp
  have n0: "0 < n" using n by simp
  have lm: "length (sample_mean d X) = d" by (simp add: sample_mean_def)
  note sr = sub_row_props[OF m lm, folded X1_def]
  have t: "transpose_mat X1 = mat_of_fun d n (\<lambda>i j. X1 ! j ! i)"
    using sr(1) n0 by (rule transpose_mat_eq)
  have mm: "mat_mul (transpose_mat X1) X1
      = mat_of_fun d d (\<lambda>i j. sum_list (map (\<lambda>l. transpose_mat X1 ! i ! l * X1 ! l ! j) [0..<n]))"
    using mat_mul_eq[of d n "transpose_mat X1" d X1] sr(1) d n0 unfolding t by simp
  have mm': "mat_mul (transpose_mat X1) X1
      = mat_of_fun d d (\<lambda>i j. sum_list (map (\<lambda>l. X1 ! l ! i * X1 ! l ! j) [0..<n]))"
    unfolding mm
  proof (rule mat_of_fun_cong)
    fix i j assume ij: "i < d" "j < d"
    have "map (\<lambda>l. transpose_mat X1 ! i ! l * X1 ! l ! j) [0..<n]
        = map (\<lambda>l. X1 ! l ! i * X1 ! l ! j) [0..<n]"
      using ij by (intro map_cong) (auto simp: t)
    then show "sum_list (map (\<lambda>l. transpose_mat X1 ! i ! l * X1 ! l ! j) [0..<n])
        = sum_list (map (\<lambda>l. X1 ! l ! i * X1 ! l ! j) [0..<n])" by (rule arg_cong)
  qed
  have tt: "transpose_mat (mat_mul (transpose_mat X1) X1)
      = mat_of_fun d d (\<lambda>i j. sum_list (map (\<lambda>l. X1 ! l ! j * X1 ! l ! i) [0..<n]))"
  proof -
    define g where "g = (\<lambda>i j. sum_list (map (\<lambda>l. X1 ! l ! i * X1 ! l ! j) [0..<n]))"
    have "transpose_mat (mat_of_fun d d g) = mat_of_fun d d (\<lambda>i j. mat_of_fun d d g ! j ! i)"
      using is_matrix_mat_of_fun d by (rule transpose_mat_eq)
    also have "\<dots> = mat_of_fun d d (\<lambda>i j. g j i)"
      by (rule mat_of_fun_cong) simp
    finally show ?thesis unfolding mm' g_def .
  qed
  have lX: "length X = n" using m by (simp add: is_matrix_iff)
  show ?thesis
  proof (rule mat_eqI[where n = d and m = d])
    show "is_matrix d d (map (map (\<lambda>x. x / real_of_int (int n - 1))) (transpose_mat (mat_mul (transpose_mat X1) X1)))"
      unfolding tt by (simp add: is_matrix_iff)
    show "is_matrix d d (sample_cov d X)" by (simp add: sample_cov_def)
    fix i j assume ij: "i < d" "j < d"
    have e: "\<And>l. l < n \<Longrightarrow> X1 ! l ! j * X1 ! l ! i
        = (X ! l ! i - sample_mean d X ! i) * (X ! l ! j - sample_mean d X ! j)"
      using ij by (simp add: sr(2))
    have "sum_list (map (\<lambda>l. X1 ! l ! j * X1 ! l ! i) [0..<n])
        = sum_list (map (\<lambda>l. (X ! l ! i - sample_mean d X ! i) * (X ! l ! j - sample_mean d X ! j)) [0..<n])"
      using e by (intro arg_cong[where f = sum_list] map_cong) auto
    also have "\<dots> = sum_list (map (\<lambda>r. (r ! i - sample_mean d X ! i) * (r ! j - sample_mean d X ! j)) X)"
      using sum_list_rows[of "\<lambda>r. (r ! i - sample_mean d X ! i) * (r ! j - sample_mean d X ! j)" X] lX by simp
    finally have s: "sum_list (map (\<lambda>l. X1 ! l ! j * X1 ! l ! i) [0..<n])
        = sum_list (map (\<lambda>r. (r ! i - sample_mean d X ! i) * (r ! j - sample_mean d X ! j)) X)" .
    have r: "real_of_int (int n - 1) = real n - 1" by simp
    show "map (map (\<lambda>x. x / real_of_int (int n - 1))) (transpose_mat (mat_mul (transpose_mat X1) X1)) ! i ! j
        = sample_cov d X ! i ! j"
      unfolding tt using ij by (simp add: sample_cov_def s lX)
  qed
qed

lemma sample_estimates_eq:
  assumes m: "is_matrix n d samp" and n: "2 \<le> n"
  shows "sample_estimates d samp lp ret_a =
     Inr \<lparr>S_hat = sample_cov d samp, m_hat = sample_mean d samp, used_cv = False,
          a_S = (if ret_a then Some Coef_zero else None),
          a_m = (if ret_a then Some Coef_zero else None),
          samp_after = sub_row samp (sample_mean d samp), lp_after = lp\<rparr>"
proof -
  have nr: "nrows samp = n" using m by (rule nrows_is_matrix)
  have z: "int n - 1 \<noteq> 0" using n by simp
  have sm: "map (\<lambda>s. s / real n) (col_sums d samp) = sample_mean d samp"
    using sample_mean_col_sums[of samp d] nr by simp
  have cv: "map (map (\<lambda>x. x / (real n - 1)))
       (transpose_mat (mat_mul (transpose_mat (sub_row samp (sample_mean d samp)))
           (sub_row samp (sample_mean d samp)))) = sample_cov d samp"
    using fallback_cov[OF m n] by simp
  show ?thesis
    unfolding sample_estimates_def Let_def nr
    using z by (simp add: sm cv)
qed

lemma below_fractions_nth:
  "j < d \<Longrightarrow> below_fractions d samp m0 ! j
     = real (length (filter (\<lambda>r. r ! j < m0 ! j) samp)) / real (length samp)"
  by (simp add: below_fractions_def)

lemma below_fractions_range:
  assumes "j < d" "samp \<noteq> []"
  shows "0 \<le> below_fractions d samp m0 ! j" "below_fractions d samp m0 ! j \<le> 1"
proof -
  have "length (filter (\<lambda>r. r ! j < m0 ! j) samp) \<le> length samp" by (rule length_filter_le)
  then show "below_fractions d samp m0 ! j \<le> 1"
    using assms by (simp add: below_fractions_nth)
  show "0 \<le> below_fractions d samp m0 ! j" using assms by (simp add: below_fractions_nth)
qed

lemma threshold_exceeded_iff:
  "threshold_exceeded d samp m0 t
   \<longleftrightarrow> (\<exists>j<d. below_fractions d samp m0 ! j < 1 - t \<or> t < below_fractions d samp m0 ! j)"
proof -
  have l: "length (below_fractions d samp m0) = d" by (simp add: below_fractions_def)
  show ?thesis
    unfolding threshold_exceeded_def list_ex_length l by auto
qed

lemma cv_estimates_result:
  assumes "cv_estimates L d samp lp S0 m0 dev_tilde pr opt ret_a = Inr r"
  shows "used_cv r" and "samp_after r = samp" and "lp_after r = lp"
  using assms unfolding cv_estimates_def
  by (auto simp: bindE_def Let_def split: sum.splits prod.splits)

lemma cv_moments_cases:
  assumes ref: "cv_reference L d Q_tilde r_tilde S_tilde m_tilde ldet = Inr (S0, m0, const)"
    and n: "nrows samp \<noteq> 0"
  shows "cv_moments L d samp lp Q_tilde r_tilde S_tilde m_tilde ldet opt (Some t) ret_a =
     (if threshold_exceeded d samp m0 (effective_threshold t)
      then sample_estimates d samp lp ret_a
      else cv_estimates L d samp lp S0 m0 (sub_row samp m0)
             (prob_ratios (sub_row samp m0) lp Q_tilde const) opt ret_a)"
proof (cases "t = 0")
  case True
  have "\<not> threshold_exceeded d samp m0 (effective_threshold t)"
  proof -
    have ne: "samp \<noteq> []" using n by (auto simp: nrows_def)
    have e: "effective_threshold t = 1" using True by (simp add: effective_threshold_def)
    show ?thesis unfolding threshold_exceeded_iff e
      using below_fractions_range[OF _ ne, of _ d m0] by (auto simp: not_less)
  qed
  then show ?thesis using True ref by (simp add: cv_moments_def Let_def)
next
  case False
  then show ?thesis using ref n by (simp add: cv_moments_def Let_def)
qed

lemmas run_cv =
  cv_moments_def cv_reference_def prob_ratios_def effective_threshold_def below_fractions_def
  threshold_exceeded_def sample_estimates_def cv_estimates_def cv_estim_def sub_row_def scale_rows_def
  col_sums_def mat_mul_def transpose_mat_def mul_elem_def auto_outer_def ravel_triu_def unravel_triu_def
  triu_pairs_def triu_index_def map_coef_def mat_of_fun_def nrows_def ncols_def Let_def


lemma fallback_example:
  "cv_moments L 1 [[1], [2]] [0, 0] [[1]] [3] (Some [[1]]) (Some [3]) (Some 0)
      \<lparr>multiple_cv = True, regulate_a = None, max_a = None\<rparr> (Some 0.9) False
   = Inr \<lparr>S_hat = [[1/2]], m_hat = [3/2], used_cv = False, a_S = None, a_m = None,
          samp_after = [[-1/2], [1/2]], lp_after = [0, 0]\<rparr>"
  by (simp add: run_cv)





text \<open>
  Claim C5 fails on the code. On the fallback path the statement \<^verbatim>\<open>samp -= m_hat\<close>
  subtracts the sample mean from the caller's array in place: with the samples \<open>1\<close> and
  \<open>2\<close> and the reference mean \<open>3\<close> both samples lie below the mean, the plain sample
  estimates are returned, and the caller's array holds \<open>-1/2\<close> and \<open>1/2\<close> afterwards. The
  array \<^verbatim>\<open>lp\<close> is unchanged.
\<close>

theorem cv_moments_fallback_overwrites_samp:
  "(\<exists>r. cv_moments lapack_ref 1 [[1], [2]] [0, 0] [[1]] [3] (Some [[1]]) (Some [3]) (Some 0)
           \<lparr>multiple_cv = True, regulate_a = None, max_a = None\<rparr> (Some 0.9) False = Inr r
        \<and> \<not> used_cv r \<and> samp_after r = [[-1/2], [1/2]] \<and> samp_after r \<noteq> [[1], [2]]
        \<and> lp_after r = [0, 0])"
  using fallback_example[of lapack_ref] by simp

text \<open>On the control-variate path, and for \<^verbatim>\<open>lp\<close> on both paths, the inputs are as the
  caller passed them.\<close>

lemma cv_moments_keeps_lp:
  assumes "cv_moments L d samp lp Q_tilde r_tilde S_tilde m_tilde ldet opt m_treshold ret_a = Inr r"
  shows "lp_after r = lp" and "used_cv r \<longrightarrow> samp_after r = samp"
proof -
  have s: "\<And>r. sample_estimates d samp lp ret_a = Inr r \<Longrightarrow> lp_after r = lp \<and> \<not> used_cv r"
    by (auto simp: sample_estimates_def Let_def split: if_splits)
  from assms show "lp_after r = lp" "used_cv r \<longrightarrow> samp_after r = samp"
    unfolding cv_moments_def
    by (auto simp: bindE_def Let_def split: sum.splits prod.splits option.splits if_splits
        dest: s cv_estimates_result)
qed

section \<open>The round trip of the parameter converter\<close>

text \<open>Positive definite forms on index functions.\<close>

lemma pd_injective:
  fixes a :: "nat \<Rightarrow> nat \<Rightarrow> real"
  assumes pd: "\<And>x. (\<exists>i<d. x i \<noteq> 0) \<Longrightarrow> 0 < (\<Sum>i<d. \<Sum>j<d. x i * a i j * x j)"
    and z: "\<And>i. i < d \<Longrightarrow> (\<Sum>j<d. a i j * y j) = 0"
  shows "\<forall>i<d. y i = 0"
proof (rule ccontr)
  assume "\<not> (\<forall>i<d. y i = 0)"
  then have "0 < (\<Sum>i<d. \<Sum>j<d. y i * a i j * y j)" using pd by blast
  moreover have "(\<Sum>i<d. \<Sum>j<d. y i * a i j * y j) = (\<Sum>i<d. y i * (\<Sum>j<d. a i j * y j))"
    by (simp add: sum_distrib_left mult.assoc)
  moreover have "\<dots> = 0" using z by simp
  ultimately show False by simp
qed

lemma sum_delta_left:
  fixes f :: "nat \<Rightarrow> real"
  shows "i < d \<Longrightarrow> (\<Sum>j<d. (if i = j then 1 else 0) * f j) = f i"
  by (simp add: if_distrib[where f = "\<lambda>x. x * _"] cong: if_cong)

lemma sum_delta_right:
  fixes f :: "nat \<Rightarrow> real"
  shows "k < d \<Longrightarrow> (\<Sum>j<d. f j * (if j = k then 1 else 0)) = f k"
  by (simp add: if_distrib[where f = "\<lambda>x. _ * x"] cong: if_cong)

lemma assoc3:
  fixes a x b :: "nat \<Rightarrow> nat \<Rightarrow> real"
  shows "(\<Sum>l<d. a i l * (\<Sum>j<d. x l j * b j k)) = (\<Sum>j<d. (\<Sum>l<d. a i l * x l j) * b j k)"
proof -
  have "(\<Sum>l<d. a i l * (\<Sum>j<d. x l j * b j k)) = (\<Sum>l<d. \<Sum>j<d. a i l * x l j * b j k)"
    by (simp add: sum_distrib_left mult.assoc)
  also have "\<dots> = (\<Sum>j<d. \<Sum>l<d. a i l * x l j * b j k)" by (rule sum.swap)
  also have "\<dots> = (\<Sum>j<d. (\<Sum>l<d. a i l * x l j) * b j k)" by (simp add: sum_distrib_right)
  finally show ?thesis .
qed

lemma assoc_vec:
  fixes a x :: "nat \<Rightarrow> nat \<Rightarrow> real" and v :: "nat \<Rightarrow> real"
  shows "(\<Sum>l<d. a i l * (\<Sum>j<d. x l j * v j)) = (\<Sum>j<d. (\<Sum>l<d. a i l * x l j) * v j)"
  using assoc3[where b = "\<lambda>j k. v j" and k = 0 and a = a and x = x and d = d and i = i] by simp

lemma right_inv_is_left_inv:
  fixes a x :: "nat \<Rightarrow> nat \<Rightarrow> real"
  assumes pd: "\<And>x. (\<exists>i<d. x i \<noteq> 0) \<Longrightarrow> 0 < (\<Sum>i<d. \<Sum>j<d. x i * a i j * x j)"
    and ri: "\<And>i k. i < d \<Longrightarrow> k < d \<Longrightarrow> (\<Sum>j<d. a i j * x j k) = (if i = k then 1 else 0)"
    and ik: "i < d" "k < d"
  shows "(\<Sum>j<d. x i j * a j k) = (if i = k then 1 else 0)"
proof -
  define y where "y = (\<lambda>i. (\<Sum>j<d. x i j * a j k) - (if i = k then 1 else 0))"
  have "\<forall>i<d. y i = 0"
  proof (rule pd_injective[of d a, OF pd])
    fix i assume i: "i < d"
    have "(\<Sum>l<d. a i l * y l) = (\<Sum>l<d. a i l * (\<Sum>j<d. x l j * a j k)) - (\<Sum>l<d. a i l * (if l = k then 1 else 0))"
      by (simp add: y_def right_diff_distrib sum_subtractf)
    also have "(\<Sum>l<d. a i l * (\<Sum>j<d. x l j * a j k)) = (\<Sum>j<d. (\<Sum>l<d. a i l * x l j) * a j k)"
      by (rule assoc3)
    also have "\<dots> = (\<Sum>j<d. (if i = j then 1 else 0) * a j k)"
      using ri[OF i] by simp
    also have "\<dots> = a i k" using i by (rule sum_delta_left)
    also have "(\<Sum>l<d. a i l * (if l = k then 1 else 0)) = a i k" using ik(2) by (rule sum_delta_right)
    finally show "(\<Sum>l<d. a i l * y l) = 0" by simp
  qed
  then show ?thesis using ik by (simp add: y_def)
qed

lemma inverse_symmetric:
  fixes a x :: "nat \<Rightarrow> nat \<Rightarrow> real"
  assumes pd: "\<And>x. (\<exists>i<d. x i \<noteq> 0) \<Longrightarrow> 0 < (\<Sum>i<d. \<Sum>j<d. x i * a i j * x j)"
    and sym: "\<And>i j. i < d \<Longrightarrow> j < d \<Longrightarrow> a i j = a j i"
    and ri: "\<And>i k. i < d \<Longrightarrow> k < d \<Longrightarrow> (\<Sum>j<d. a i j * x j k) = (if i = k then 1 else 0)"
    and ik: "i < d" "k < d"
  shows "x i k = x k i"
proof -
  define y where "y = (\<lambda>l. x k l - x l k)"
  have "\<forall>l<d. y l = 0"
  proof (rule pd_injective[of d a, OF pd])
    fix i assume i: "i < d"
    have "(\<Sum>l<d. a i l * x k l) = (\<Sum>l<d. x k l * a l i)"
      using sym[OF i] by (intro sum.cong) (auto simp: mult.commute)
    also have "\<dots> = (if k = i then 1 else 0)"
      using right_inv_is_left_inv[of d a x k i, OF pd ri ik(2) i] by simp
    finally have 1: "(\<Sum>l<d. a i l * x k l) = (if k = i then 1 else 0)" .
    have "(\<Sum>l<d. a i l * y l) = (\<Sum>l<d. a i l * x k l) - (\<Sum>l<d. a i l * x l k)"
      by (simp add: y_def right_diff_distrib sum_subtractf)
    then show "(\<Sum>l<d. a i l * y l) = 0" using 1 ri[OF i ik(2)] by auto
  qed
  then show ?thesis using ik(1) by (simp add: y_def)
qed

lemma inverse_pd:
  fixes a x :: "nat \<Rightarrow> nat \<Rightarrow> real"
  assumes pd: "\<And>x. (\<exists>i<d. x i \<noteq> 0) \<Longrightarrow> 0 < (\<Sum>i<d. \<Sum>j<d. x i * a i j * x j)"
    and sym: "\<And>i j. i < d \<Longrightarrow> j < d \<Longrightarrow> a i j = a j i"
    and ri: "\<And>i k. i < d \<Longrightarrow> k < d \<Longrightarrow> (\<Sum>j<d. a i j * x j k) = (if i = k then 1 else 0)"
    and nz: "\<exists>i<d. z i \<noteq> 0"
  shows "0 < (\<Sum>i<d. \<Sum>j<d. z i * x i j * z j)"
proof -
  define y where "y = (\<lambda>i. \<Sum>j<d. x i j * z j)"
  have ay: "\<And>i. i < d \<Longrightarrow> (\<Sum>l<d. a i l * y l) = z i"
  proof -
    fix i assume i: "i < d"
    have "(\<Sum>l<d. a i l * y l) = (\<Sum>j<d. (\<Sum>l<d. a i l * x l j) * z j)"
      unfolding y_def by (rule assoc_vec)
    also have "\<dots> = (\<Sum>j<d. (if i = j then 1 else 0) * z j)" using ri[OF i] by simp
    also have "\<dots> = z i" using i by (rule sum_delta_left)
    finally show "(\<Sum>l<d. a i l * y l) = z i" .
  qed
  have "\<exists>i<d. y i \<noteq> 0"
  proof (rule ccontr)
    assume "\<not> (\<exists>i<d. y i \<noteq> 0)"
    then have "\<And>i. i < d \<Longrightarrow> (\<Sum>l<d. a i l * y l) = 0" by simp
    then show False using ay nz by auto
  qed
  then have pos: "0 < (\<Sum>i<d. \<Sum>j<d. y i * a i j * y j)" by (rule pd)
  have "(\<Sum>i<d. \<Sum>j<d. z i * x i j * z j) = (\<Sum>i<d. z i * y i)"
    by (simp add: y_def sum_distrib_left mult.assoc)
  also have "\<dots> = (\<Sum>i<d. (\<Sum>l<d. a i l * y l) * y i)" using ay by simp
  also have "\<dots> = (\<Sum>i<d. \<Sum>l<d. y i * a i l * y l)"
  proof (rule sum.cong[OF refl])
    fix i
    have "(\<Sum>l<d. a i l * y l) * y i = (\<Sum>l<d. a i l * y l * y i)" by (rule sum_distrib_right)
    also have "\<dots> = (\<Sum>l<d. y i * a i l * y l)" by (intro sum.cong) (auto simp: ac_simps)
    finally show "(\<Sum>l<d. a i l * y l) * y i = (\<Sum>l<d. y i * a i l * y l)" .
  qed
  finally show ?thesis using pos by simp
qed

lemma pd_unique:
  fixes a :: "nat \<Rightarrow> nat \<Rightarrow> real"
  assumes pd: "\<And>x. (\<exists>i<d. x i \<noteq> 0) \<Longrightarrow> 0 < (\<Sum>i<d. \<Sum>j<d. x i * a i j * x j)"
    and e: "\<And>i. i < d \<Longrightarrow> (\<Sum>j<d. a i j * u j) = (\<Sum>j<d. a i j * v j)"
  shows "\<forall>i<d. u i = v i"
proof -
  have "\<forall>i<d. (\<lambda>i. u i - v i) i = 0"
  proof (rule pd_injective[of d a, OF pd])
    fix i assume "i < d"
    then show "(\<Sum>j<d. a i j * (u j - v j)) = 0"
      using e by (simp add: right_diff_distrib sum_subtractf)
  qed
  then show ?thesis by simp
qed

lemma spd_props:
  assumes "spd d A"
  shows "is_matrix d d A"
    and "\<And>i j. i < d \<Longrightarrow> j < d \<Longrightarrow> A ! i ! j = A ! j ! i"
    and "\<And>x. (\<exists>i<d. x i \<noteq> 0) \<Longrightarrow> 0 < (\<Sum>i<d. \<Sum>j<d. x i * A ! i ! j * x j)"
  using assms by (auto simp: spd_def symmetric_mat_iff quad_form_def)

lemma right_inverse_props:
  assumes "right_inverse d A X"
  shows "is_matrix d d X"
    and "\<And>i k. i < d \<Longrightarrow> k < d \<Longrightarrow> (\<Sum>j<d. A ! i ! j * X ! j ! k) = (if i = k then 1 else 0)"
  using assms by (auto simp: right_inverse_def)

lemma right_inverse_symmetric:
  assumes "spd d A" "right_inverse d A X" "i < d" "k < d"
  shows "X ! i ! k = X ! k ! i"
  using inverse_symmetric[of d "\<lambda>i j. A ! i ! j" "\<lambda>i j. X ! i ! j" i k]
    spd_props(2,3)[OF assms(1)] right_inverse_props(2)[OF assms(2)] assms(3,4) by blast

lemma copy_triu_is_inverse:
  assumes A: "spd d A" and X: "right_inverse d A X"
    and R: "\<forall>i<d. \<forall>j<d. i \<le> j \<longrightarrow> R ! i ! j = X ! i ! j"
  shows "copy_triu_to_tril d R = X"
proof (rule mat_eqI[where n = d and m = d])
  show "is_matrix d d (copy_triu_to_tril d R)" by (simp add: copy_triu_to_tril_def)
  show "is_matrix d d X" using X by (rule right_inverse_props)
  fix i j assume ij: "i < d" "j < d"
  show "copy_triu_to_tril d R ! i ! j = X ! i ! j"
  proof (cases "j < i")
    case True
    then have "copy_triu_to_tril d R ! i ! j = X ! j ! i"
      using ij R by (simp add: copy_triu_to_tril_def)
    then show ?thesis using right_inverse_symmetric[OF A X ij] by simp
  next
    case False
    then show ?thesis using ij R by (simp add: copy_triu_to_tril_def)
  qed
qed

lemma spd_inverse:
  assumes A: "spd d A" and X: "right_inverse d A X"
  shows "spd d X"
proof -
  have m: "is_matrix d d X" using X by (rule right_inverse_props)
  then have l: "length X = d" by (simp add: is_matrix_iff)
  have s: "symmetric_mat X"
    unfolding symmetric_mat_iff l using m right_inverse_symmetric[OF A X] by simp
  have "\<And>z. (\<exists>i<d. z i \<noteq> 0) \<Longrightarrow> 0 < quad_form d X z"
    unfolding quad_form_def
    using inverse_pd[of d "\<lambda>i j. A ! i ! j" "\<lambda>i j. X ! i ! j"]
      spd_props(2,3)[OF A] right_inverse_props(2)[OF X] by blast
  then show ?thesis using s l by (simp add: spd_def)
qed

lemma right_inverse_swap:
  assumes A: "spd d A" and X: "right_inverse d A X"
  shows "right_inverse d X A"
  unfolding right_inverse_def
  using spd_props(1)[OF A]
    right_inv_is_left_inv[of d "\<lambda>i j. A ! i ! j" "\<lambda>i j. X ! i ! j"]
    spd_props(3)[OF A] right_inverse_props(2)[OF X] by blast

lemma right_inverse_unique:
  assumes Q: "spd d Q" and Y: "right_inverse d Q Y" and Z: "right_inverse d Q Z"
  shows "Y = Z"
proof (rule mat_eqI[where n = d and m = d])
  show "is_matrix d d Y" using Y by (rule right_inverse_props)
  show "is_matrix d d Z" using Z by (rule right_inverse_props)
  fix i k assume ik: "i < d" "k < d"
  have "\<forall>i<d. (\<lambda>j. Y ! j ! k) i = (\<lambda>j. Z ! j ! k) i"
  proof (rule pd_unique[of d "\<lambda>i j. Q ! i ! j"])
    show "\<And>x. \<exists>i<d. x i \<noteq> 0 \<Longrightarrow> 0 < (\<Sum>i<d. \<Sum>j<d. x i * Q ! i ! j * x j)"
      using Q by (rule spd_props)
    show "\<And>i. i < d \<Longrightarrow> (\<Sum>j<d. Q ! i ! j * Y ! j ! k) = (\<Sum>j<d. Q ! i ! j * Z ! j ! k)"
      using right_inverse_props(2)[OF Y _ ik(2)] right_inverse_props(2)[OF Z _ ik(2)] by simp
  qed
  then show "Y ! i ! k = Z ! i ! k" using ik by simp
qed

lemma solve_back:
  assumes S: "spd d S" and X: "right_inverse d S X"
    and x1: "solves d S x1 m" and x2: "solves d X x2 x1" and m: "length m = d"
  shows "x2 = m"
proof (rule nth_equalityI)
  show "length x2 = length m" using x2 m by (simp add: solves_def)
next
  fix i assume "i < length x2"
  then have i: "i < d" using x2 by (simp add: solves_def)
  have li: "\<And>i k. i < d \<Longrightarrow> k < d \<Longrightarrow> (\<Sum>j<d. X ! i ! j * S ! j ! k) = (if i = k then 1 else 0)"
    using right_inverse_props(2)[OF right_inverse_swap[OF S X]] .
  have Xm: "\<And>i. i < d \<Longrightarrow> (\<Sum>j<d. X ! i ! j * m ! j) = x1 ! i"
  proof -
    fix i assume i: "i < d"
    have "(\<Sum>j<d. X ! i ! j * m ! j) = (\<Sum>j<d. X ! i ! j * (\<Sum>l<d. S ! j ! l * x1 ! l))"
      using x1 by (simp add: solves_def)
    also have "\<dots> = (\<Sum>l<d. (\<Sum>j<d. X ! i ! j * S ! j ! l) * x1 ! l)"
      by (rule assoc_vec)
    also have "\<dots> = (\<Sum>l<d. (if i = l then 1 else 0) * x1 ! l)" using li[OF i] by simp
    also have "\<dots> = x1 ! i" using i by (rule sum_delta_left)
    finally show "(\<Sum>j<d. X ! i ! j * m ! j) = x1 ! i" .
  qed
  have "\<forall>i<d. (\<lambda>j. x2 ! j) i = (\<lambda>j. m ! j) i"
  proof (rule pd_unique[of d "\<lambda>i j. X ! i ! j"])
    show "\<And>x. \<exists>i<d. x i \<noteq> 0 \<Longrightarrow> 0 < (\<Sum>i<d. \<Sum>j<d. x i * X ! i ! j * x j)"
      using spd_inverse[OF S X] by (rule spd_props)
    show "\<And>i. i < d \<Longrightarrow> (\<Sum>j<d. X ! i ! j * x2 ! j) = (\<Sum>j<d. X ! i ! j * m ! j)"
      using x2 Xm by (simp add: solves_def)
  qed
  then show "x2 ! i = m ! i" using i by simp
qed

text \<open>One call of the converter on a symmetric positive definite matrix: with routines
  that keep their promises it returns the inverse and the solution.\<close>

lemma invert_normal_params_spd:
  assumes L: "lapack_contract L d" and A: "spd d A" and b: "length b = d"
  shows "\<exists>X x. invert_normal_params L \<lparr>data = A, layout = lay\<rparr> (Some b) New_array New_array False
              = Inr (\<lparr>data = X, layout = F_contiguous\<rparr>, Some x)
           \<and> right_inverse d A X \<and> solves d A x b"
proof -
  have "\<exists>U. cho_factor L A = Inr U
           \<and> (\<forall>b. length b = d \<longrightarrow> (\<exists>x. cho_solve L U b = Inr x \<and> solves d A x b))
           \<and> (\<exists>R X. potri L U = (R, 0) \<and> right_inverse d A X
                  \<and> (\<forall>i<d. \<forall>j<d. i \<le> j \<longrightarrow> R ! i ! j = X ! i ! j))"
    using L[unfolded lapack_contract_def, rule_format, OF A] .
  then obtain U R X where U: "cho_factor L A = Inr U"
    and sol: "\<forall>b. length b = d \<longrightarrow> (\<exists>x. cho_solve L U b = Inr x \<and> solves d A x b)"
    and R: "potri L U = (R, 0)" "right_inverse d A X"
      "\<forall>i<d. \<forall>j<d. i \<le> j \<longrightarrow> R ! i ! j = X ! i ! j"
    by (elim exE conjE)
  from sol[rule_format, OF b] obtain x where x: "cho_solve L U b = Inr x" "solves d A x b"
    by (elim exE conjE)
  have c: "copy_triu_to_tril d R = X" using A R(2,3) by (rule copy_triu_is_inverse)
  have n: "nrows A = d" using spd_props(1)[OF A] by (rule nrows_is_matrix)
  have "invert_normal_params L \<lparr>data = A, layout = lay\<rparr> (Some b) New_array New_array False
      = Inr (\<lparr>data = X, layout = F_contiguous\<rparr>, Some x)"
    unfolding invert_normal_params_def prepare_out_def prepare_out_vec_def
    by (simp add: U x(1) R(1) n c)
  then show ?thesis using R(2) x(2) by blast
qed

section \<open>The reference routines keep the promises of LAPACK\<close>

lemma sum_shift: "(\<Sum>i<Suc d. f i) = f 0 + (\<Sum>i<d. f (Suc i))" for f :: "nat \<Rightarrow> real"
  by (rule sum.lessThan_Suc_shift)

lemma is_matrix_Cons:
  "is_matrix (Suc n) m (r # rows) \<longleftrightarrow> length r = m \<and> is_matrix n m rows"
  by (auto simp: is_matrix_def)

lemma is_matrix_map_tl: "is_matrix n (Suc m) rows \<Longrightarrow> is_matrix n m (map tl rows)"
  by (auto simp: is_matrix_iff)

lemma nth_map_tl: "is_matrix n (Suc m) rows \<Longrightarrow> i < n \<Longrightarrow> j < m \<Longrightarrow> map tl rows ! i ! j = rows ! i ! Suc j"
  by (simp add: is_matrix_iff nth_tl)

lemma ut_sub:
  assumes "is_matrix d (Suc d) rows" "l < d" "i < d"
  shows "ut (map tl rows) l i = ut (r # rows) (Suc l) (Suc i)"
  using assms by (simp add: ut_def nth_map_tl)

lemma ut_first_col: "ut U (Suc l) 0 = 0"
  by (simp add: ut_def)

lemma ut_first_row: "ut (r # rows) 0 j = r ! j"
  by (simp add: ut_def)

lemma sum_list_map2_mult:
  "length xs = d \<Longrightarrow> length ys = d \<Longrightarrow> sum_list (map2 (*) xs ys) = (\<Sum>l<d. xs ! l * ys ! l)" for xs :: vec
proof (induction xs arbitrary: ys d)
  case Nil
  then show ?case by simp
next
  case (Cons x xs)
  then obtain y ys1 d1 where y: "ys = y # ys1" "d = Suc d1" by (cases ys; cases d) auto
  then show ?case using Cons by (simp add: sum_shift del: sum.lessThan_Suc)
qed

lemma forward_solve_ok:
  assumes "is_matrix d d U" "\<forall>i<d. U ! i ! i \<noteq> 0" "length b = d"
  shows "length (forward_solve U b) = d
       \<and> (\<forall>i<d. (\<Sum>l<d. ut U l i * forward_solve U b ! l) = b ! i)"
  using assms
proof (induction d arbitrary: U b)
  case 0
  then show ?case by (simp add: is_matrix_def)
next
  case (Suc d)
  from Suc.prems(1) obtain r rows where U: "U = r # rows" by (cases U) (auto simp: is_matrix_def)
  from Suc.prems(3) obtain b0 b1 where b: "b = b0 # b1" by (cases b) auto
  have r: "length r = Suc d" and rows: "is_matrix d (Suc d) rows"
    using Suc.prems(1) unfolding U is_matrix_Cons by simp_all
  define y0 where "y0 = b0 / hd r"
  define b2 where "b2 = map2 (\<lambda>bk uk. bk - y0 * uk) b1 (tl r)"
  define sub where "sub = map tl rows"
  have r0: "hd r = r ! 0" "r ! 0 \<noteq> 0" using r Suc.prems(2) U by (cases r; auto)+
  have m: "is_matrix d d sub" unfolding sub_def using rows by (rule is_matrix_map_tl)
  have dg: "\<forall>i<d. sub ! i ! i \<noteq> 0"
    using Suc.prems(2) rows unfolding sub_def U by (auto simp: nth_map_tl)
  have lb: "length b2 = d" using Suc.prems(3) r by (simp add: b2_def b)
  note IH = Suc.IH[OF m dg lb]
  have fs: "forward_solve (r # rows) (b0 # b1) = y0 # forward_solve sub b2"
    by (simp add: y0_def b2_def sub_def Let_def)
  have b2n: "\<And>i. i < d \<Longrightarrow> b2 ! i = b1 ! i - y0 * r ! Suc i"
    using Suc.prems(3) r by (simp add: b2_def b nth_tl)
  show ?case unfolding U b fs
  proof (intro conjI allI impI)
    show "length (y0 # forward_solve sub b2) = Suc d" using IH by simp
  next
    fix i assume i: "i < Suc d"
    show "(\<Sum>l<Suc d. ut (r # rows) l i * (y0 # forward_solve sub b2) ! l) = (b0 # b1) ! i"
    proof (cases i)
      case 0
      have "ut (r # rows) 0 0 * y0 = b0" using r0 by (simp add: ut_def y0_def)
      then show ?thesis unfolding 0 sum_shift by (simp add: ut_first_col)
    next
      case (Suc i1)
      then have i1: "i1 < d" using i by simp
      have "(\<Sum>l<d. ut (r # rows) (Suc l) (Suc i1) * forward_solve sub b2 ! l)
          = (\<Sum>l<d. ut sub l i1 * forward_solve sub b2 ! l)"
        using ut_sub[OF rows _ i1, of _ r] by (simp add: sub_def)
      also have "\<dots> = b2 ! i1" using IH i1 by simp
      finally have t: "(\<Sum>l<d. ut (r # rows) (Suc l) (Suc i1) * forward_solve sub b2 ! l) = b2 ! i1" .
      have h: "ut (r # rows) 0 (Suc i1) = r ! Suc i1" by (simp add: ut_def)
      show ?thesis unfolding Suc sum_shift using i1 by (simp add: t h b2n)
    qed
  qed
qed

lemma back_solve_ok:
  assumes "is_matrix d d U" "\<forall>i<d. U ! i ! i \<noteq> 0" "length y = d"
  shows "length (back_solve U y) = d
       \<and> (\<forall>i<d. (\<Sum>l<d. ut U i l * back_solve U y ! l) = y ! i)"
  using assms
proof (induction d arbitrary: U y)
  case 0
  then show ?case by (simp add: is_matrix_def)
next
  case (Suc d)
  from Suc.prems(1) obtain r rows where U: "U = r # rows" by (cases U) (auto simp: is_matrix_def)
  from Suc.prems(3) obtain y0 y1 where y: "y = y0 # y1" by (cases y) auto
  have r: "length r = Suc d" and rows: "is_matrix d (Suc d) rows"
    using Suc.prems(1) unfolding U is_matrix_Cons by simp_all
  define sub where "sub = map tl rows"
  define x1 where "x1 = back_solve sub y1"
  define x0 where "x0 = (y0 - sum_list (map2 (*) (tl r) x1)) / hd r"
  have r0: "hd r = r ! 0" "r ! 0 \<noteq> 0" using r Suc.prems(2) U by (cases r; auto)+
  have m: "is_matrix d d sub" unfolding sub_def using rows by (rule is_matrix_map_tl)
  have dg: "\<forall>i<d. sub ! i ! i \<noteq> 0"
    using Suc.prems(2) rows unfolding sub_def U by (auto simp: nth_map_tl)
  have ly: "length y1 = d" using Suc.prems(3) by (simp add: y)
  note IH = Suc.IH[OF m dg ly, folded x1_def]
  have bs: "back_solve (r # rows) (y0 # y1) = x0 # x1"
    by (simp add: x0_def x1_def sub_def Let_def)
  have sl: "sum_list (map2 (*) (tl r) x1) = (\<Sum>l<d. r ! Suc l * x1 ! l)"
    using sum_list_map2_mult[of "tl r" d x1] r IH by (simp add: nth_tl)
  show ?case unfolding U y bs
  proof (intro conjI allI impI)
    show "length (x0 # x1) = Suc d" using IH by simp
  next
    fix i assume i: "i < Suc d"
    show "(\<Sum>l<Suc d. ut (r # rows) i l * (x0 # x1) ! l) = (y0 # y1) ! i"
    proof (cases i)
      case 0
      have "ut (r # rows) 0 0 * x0 = y0 - (\<Sum>l<d. r ! Suc l * x1 ! l)"
        using r0 by (simp add: ut_def x0_def sl)
      moreover have "(\<Sum>l<d. ut (r # rows) 0 (Suc l) * x1 ! l) = (\<Sum>l<d. r ! Suc l * x1 ! l)"
        by (simp add: ut_def)
      ultimately show ?thesis unfolding 0 sum_shift by simp
    next
      case (Suc i1)
      then have i1: "i1 < d" using i by simp
      have "(\<Sum>l<d. ut (r # rows) (Suc i1) (Suc l) * x1 ! l) = (\<Sum>l<d. ut sub i1 l * x1 ! l)"
        using ut_sub[OF rows i1, of _ r] by (simp add: sub_def)
      also have "\<dots> = y1 ! i1" using IH i1 by simp
      finally have t: "(\<Sum>l<d. ut (r # rows) (Suc i1) (Suc l) * x1 ! l) = y1 ! i1" .
      show ?thesis unfolding Suc sum_shift by (simp add: t ut_first_col)
    qed
  qed
qed

lemma upper_factor_solves:
  assumes U: "upper_factor d U A" and b: "length b = d"
  shows "solves d A (back_solve U (forward_solve U b)) b"
proof -
  have m: "is_matrix d d U" and dg: "\<forall>i<d. U ! i ! i \<noteq> 0"
    and f: "\<And>i j. i < d \<Longrightarrow> j < d \<Longrightarrow> (\<Sum>l<d. ut U l i * ut U l j) = A ! i ! j"
    using U by (auto simp: upper_factor_def)
  define y where "y = forward_solve U b"
  define x where "x = back_solve U y"
  have y: "length y = d" "\<And>i. i < d \<Longrightarrow> (\<Sum>l<d. ut U l i * y ! l) = b ! i"
    using forward_solve_ok[OF m dg b] by (simp_all add: y_def)
  have x: "length x = d" "\<And>i. i < d \<Longrightarrow> (\<Sum>l<d. ut U i l * x ! l) = y ! i"
    using back_solve_ok[OF m dg y(1)] by (simp_all add: x_def)
  have "\<And>i. i < d \<Longrightarrow> (\<Sum>j<d. A ! i ! j * x ! j) = b ! i"
  proof -
    fix i assume i: "i < d"
    have "(\<Sum>j<d. A ! i ! j * x ! j) = (\<Sum>j<d. (\<Sum>l<d. ut U l i * ut U l j) * x ! j)"
      using f[OF i] by simp
    also have "\<dots> = (\<Sum>l<d. ut U l i * (\<Sum>j<d. ut U l j * x ! j))"
      using assoc_vec[where a = "\<lambda>i l. ut U l i" and x = "\<lambda>l j. ut U l j" and v = "\<lambda>j. x ! j"
          and d = d and i = i] by simp
    also have "\<dots> = (\<Sum>l<d. ut U l i * y ! l)" using x(2) by simp
    also have "\<dots> = b ! i" using y(2)[OF i] .
    finally show "(\<Sum>j<d. A ! i ! j * x ! j) = b ! i" .
  qed
  then show ?thesis using x(1) unfolding solves_def x_def y_def by simp
qed

lemma schur_quad:
  fixes a :: real and v y :: "nat \<Rightarrow> real" and M :: "nat \<Rightarrow> nat \<Rightarrow> real"
  assumes a: "0 < a"
    and M00: "M 0 0 = a"
    and M0j: "\<And>j. j < d \<Longrightarrow> M 0 (Suc j) = v j"
    and Mi0: "\<And>i. i < d \<Longrightarrow> M (Suc i) 0 = v i"
  defines "c \<equiv> (\<Sum>j<d. v j * y j)"
  defines "x \<equiv> (\<lambda>k. case k of 0 \<Rightarrow> - c / a | Suc k1 \<Rightarrow> y k1)"
  shows "(\<Sum>i<Suc d. \<Sum>j<Suc d. x i * M i j * x j)
       = (\<Sum>i<d. \<Sum>j<d. y i * (M (Suc i) (Suc j) - v i * v j / a) * y j)"
proof -
  define Q where "Q = (\<Sum>i<d. \<Sum>j<d. y i * M (Suc i) (Suc j) * y j)"
  have x0: "x 0 = - c / a" and xS: "\<And>k. x (Suc k) = y k" by (simp_all add: x_def)
  have r0: "(\<Sum>j<d. x 0 * M 0 (Suc j) * y j) = x 0 * c"
  proof -
    have "(\<Sum>j<d. x 0 * M 0 (Suc j) * y j) = (\<Sum>j<d. x 0 * (v j * y j))"
      using M0j by (intro sum.cong) (auto simp: mult.assoc)
    then show ?thesis by (simp add: c_def sum_distrib_left)
  qed
  have c0: "(\<Sum>i<d. y i * M (Suc i) 0 * x 0) = x 0 * c"
  proof -
    have "(\<Sum>i<d. y i * M (Suc i) 0 * x 0) = (\<Sum>i<d. x 0 * (v i * y i))"
      using Mi0 by (intro sum.cong) (auto simp: ac_simps)
    then show ?thesis by (simp add: c_def sum_distrib_left)
  qed
  have "(\<Sum>i<Suc d. \<Sum>j<Suc d. x i * M i j * x j)
      = (x 0 * M 0 0 * x 0 + (\<Sum>j<d. x 0 * M 0 (Suc j) * y j))
        + (\<Sum>i<d. (y i * M (Suc i) 0 * x 0 + (\<Sum>j<d. y i * M (Suc i) (Suc j) * y j)))"
    unfolding sum_shift xS ..
  also have "\<dots> = x 0 * a * x 0 + x 0 * c + (x 0 * c + Q)"
    unfolding r0 M00 Q_def sum.distrib c0 by simp
  also have "\<dots> = Q - c * c / a" using a by (simp add: x0 field_simps)
  finally have L: "(\<Sum>i<Suc d. \<Sum>j<Suc d. x i * M i j * x j) = Q - c * c / a" .
  have cc: "(\<Sum>i<d. \<Sum>j<d. y i * (v i * v j / a) * y j) = c * c / a"
  proof -
    have "(\<Sum>i<d. \<Sum>j<d. y i * (v i * v j / a) * y j) = (\<Sum>i<d. \<Sum>j<d. (v i * y i) * (v j * y j)) / a"
      by (simp add: sum_divide_distrib ac_simps)
    also have "(\<Sum>i<d. \<Sum>j<d. (v i * y i) * (v j * y j)) = c * c"
      unfolding c_def by (simp add: sum_product)
    finally show ?thesis .
  qed
  have "(\<Sum>i<d. \<Sum>j<d. y i * (M (Suc i) (Suc j) - v i * v j / a) * y j)
      = (\<Sum>i<d. \<Sum>j<d. (y i * M (Suc i) (Suc j) * y j - y i * (v i * v j / a) * y j))"
    by (simp add: algebra_simps)
  also have "\<dots> = Q - (\<Sum>i<d. \<Sum>j<d. y i * (v i * v j / a) * y j)"
    by (simp add: Q_def sum_subtractf)
  also have "\<dots> = Q - c * c / a" unfolding cc ..
  finally show ?thesis using L by simp
qed

lemma spd_diag_pos:
  assumes "spd d A" "i < d"
  shows "0 < A ! i ! i"
proof -
  have "0 < (\<Sum>k<d. \<Sum>j<d. (if k = i then 1 else 0) * A ! k ! j * (if j = i then 1 else 0))"
    using spd_props(3)[OF assms(1), of "\<lambda>k. if k = i then 1 else 0"] assms(2) by auto
  moreover have "(\<Sum>k<d. \<Sum>j<d. (if k = i then 1 else 0) * A ! k ! j * (if j = i then 1 else (0::real)))
      = A ! i ! i"
  proof -
    have "\<And>k. (\<Sum>j<d. (if k = i then 1 else 0) * A ! k ! j * (if j = i then 1 else (0::real)))
        = (if k = i then 1 else 0) * A ! k ! i"
      using sum_delta_right[OF assms(2), of "\<lambda>j. (if _ = i then 1 else 0) * A ! _ ! j"] by simp
    then have "(\<Sum>k<d. \<Sum>j<d. (if k = i then 1 else 0) * A ! k ! j * (if j = i then 1 else (0::real)))
        = (\<Sum>k<d. (if i = k then 1 else 0) * A ! k ! i)"
      by (intro sum.cong) auto
    also have "\<dots> = A ! i ! i" using assms(2) by (rule sum_delta_left)
    finally show ?thesis .
  qed
  ultimately show ?thesis by simp
qed

lemma spdI:
  assumes "is_matrix d d A"
    and "\<And>i j. i < d \<Longrightarrow> j < d \<Longrightarrow> A ! i ! j = A ! j ! i"
    and "\<And>x. (\<exists>i<d. x i \<noteq> 0) \<Longrightarrow> 0 < (\<Sum>i<d. \<Sum>j<d. x i * A ! i ! j * x j)"
  shows "spd d A"
  using assms by (auto simp: spd_def symmetric_mat_iff quad_form_def is_matrix_iff)

lemma chol_ok: "spd d A \<Longrightarrow> \<exists>U. chol A = Inr U \<and> upper_factor d U A"
proof (induction d arbitrary: A)
  case 0
  then have "A = []" by (simp add: spd_def)
  then show ?case by (simp add: upper_factor_def is_matrix_def)
next
  case (Suc d)
  note m = spd_props(1)[OF Suc.prems] and sym = spd_props(2)[OF Suc.prems]
    and pd = spd_props(3)[OF Suc.prems]
  from m obtain r rows where A: "A = r # rows" by (cases A) (auto simp: is_matrix_def)
  have r: "length r = Suc d" and rows: "is_matrix d (Suc d) rows"
    using m unfolding A is_matrix_Cons by simp_all
  from r obtain a v where rv: "r = a # v" and lv: "length v = d" by (cases r) auto
  have rowsn: "\<And>i. i < d \<Longrightarrow> length (rows ! i) = Suc d" using rows by (simp add: is_matrix_iff)
  have lrows: "length rows = d" using rows by (simp add: is_matrix_iff)
  have a0: "0 < a" using spd_diag_pos[OF Suc.prems, of 0] by (simp add: A rv)
  define p where "p = sqrt a"
  have p0: "0 < p" and pp: "p * p = a" using a0 by (simp_all add: p_def)
  define u where "u = map (\<lambda>x. x / p) v"
  have lu: "length u = d" by (simp add: u_def lv)
  have un: "\<And>i. i < d \<Longrightarrow> u ! i = v ! i / p" by (simp add: u_def lv)
  have uu: "\<And>i j. i < d \<Longrightarrow> j < d \<Longrightarrow> u ! i * u ! j = v ! i * v ! j / a"
    using pp by (simp add: un)
  define rest where "rest = map2 (\<lambda>uk row. map2 (\<lambda>uj x. x - uk * uj) u (tl row)) u rows"
  have rest_m: "is_matrix d d rest"
    by (simp add: rest_def is_matrix_iff lu lrows rowsn)
  have rest_n: "\<And>i j. i < d \<Longrightarrow> j < d \<Longrightarrow> rest ! i ! j = A ! Suc i ! Suc j - v ! i * v ! j / a"
    by (simp add: rest_def lu lrows rowsn nth_tl A uu)
  have A0: "\<And>j. j < d \<Longrightarrow> A ! 0 ! Suc j = v ! j" by (simp add: A rv)
  have Ai0: "\<And>i. i < d \<Longrightarrow> A ! Suc i ! 0 = v ! i" using sym[of "Suc _" 0] A0 by simp
  have rest_spd: "spd d rest"
  proof (rule spdI[OF rest_m])
    fix i j assume "i < d" "j < d"
    then show "rest ! i ! j = rest ! j ! i" using sym[of "Suc i" "Suc j"] by (simp add: rest_n)
  next
    fix y :: "nat \<Rightarrow> real" assume y: "\<exists>i<d. y i \<noteq> 0"
    define c where "c = (\<Sum>j<d. v ! j * y j)"
    define x where "x = (\<lambda>k. case k of 0 \<Rightarrow> - c / a | Suc k1 \<Rightarrow> y k1)"
    from y obtain i where "i < d" "y i \<noteq> 0" by blast
    then have "Suc i < Suc d" "x (Suc i) \<noteq> 0" by (simp_all add: x_def)
    then have "\<exists>i<Suc d. x i \<noteq> 0" by blast
    from pd[OF this] have "0 < (\<Sum>i<Suc d. \<Sum>j<Suc d. x i * A ! i ! j * x j)" .
    also have "(\<Sum>i<Suc d. \<Sum>j<Suc d. x i * A ! i ! j * x j)
        = (\<Sum>i<d. \<Sum>j<d. y i * (A ! Suc i ! Suc j - v ! i * v ! j / a) * y j)"
      unfolding x_def c_def
      by (rule schur_quad[of a "\<lambda>i j. A ! i ! j" d "\<lambda>j. v ! j" y, OF a0 _ A0 Ai0]) (simp add: A rv)
    also have "\<dots> = (\<Sum>i<d. \<Sum>j<d. y i * rest ! i ! j * y j)"
      by (intro sum.cong refl) (simp add: rest_n)
    finally show "0 < (\<Sum>i<d. \<Sum>j<d. y i * rest ! i ! j * y j)" .
  qed
  from Suc.IH[OF rest_spd] obtain U1 where c1: "chol rest = Inr U1" and f1: "upper_factor d U1 rest"
    by blast
  have U1m: "is_matrix d d U1" and U1d: "\<And>i. i < d \<Longrightarrow> 0 < U1 ! i ! i"
    and U1p: "\<And>i j. i < d \<Longrightarrow> j < d \<Longrightarrow> (\<Sum>l<d. ut U1 l i * ut U1 l j) = rest ! i ! j"
    using f1 by (simp_all add: upper_factor_def)
  have lU1: "length U1 = d" and U1n: "\<And>i. i < d \<Longrightarrow> length (U1 ! i) = d"
    using U1m by (simp_all add: is_matrix_iff)
  define U where "U = (p # u) # map2 (\<lambda>row urow. hd row # urow) rows U1"
  have cA: "chol A = Inr U"
    using a0 c1 unfolding A rv U_def rest_def u_def p_def by (simp add: Let_def)
  have Um: "is_matrix (Suc d) (Suc d) U"
    by (simp add: U_def is_matrix_iff lu lrows lU1 U1n nth_Cons split: nat.split)
  have US: "\<And>i. i < d \<Longrightarrow> U ! Suc i = hd (rows ! i) # U1 ! i"
    by (simp add: U_def lrows lU1)
  have Ud: "\<forall>i<Suc d. 0 < U ! i ! i"
  proof (intro allI impI)
    fix i assume "i < Suc d"
    then show "0 < U ! i ! i"
      by (cases i) (simp_all add: US U1d p0, simp add: U_def p0)
  qed
  have ut0: "\<And>j. ut U 0 j = (p # u) ! j" by (simp add: U_def ut_first_row)
  have utS: "\<And>l j. l < d \<Longrightarrow> ut U (Suc l) (Suc j) = ut U1 l j" by (simp add: ut_def US)
  have Up: "\<forall>i<Suc d. \<forall>j<Suc d. (\<Sum>l<Suc d. ut U l i * ut U l j) = A ! i ! j"
  proof (intro allI impI)
    fix i j assume i: "i < Suc d" and j: "j < Suc d"
    show "(\<Sum>l<Suc d. ut U l i * ut U l j) = A ! i ! j"
    proof (cases i)
      case 0
      have z: "(\<Sum>l<d. ut U (Suc l) 0 * ut U (Suc l) j) = 0" by (simp add: ut_first_col)
      show ?thesis
      proof (cases j)
        case 0
        then show ?thesis using \<open>i = 0\<close> z unfolding sum_shift by (simp add: ut0 pp A rv)
      next
        case (Suc j1)
        then have "j1 < d" using j by simp
        then show ?thesis using \<open>i = 0\<close> z p0 unfolding sum_shift Suc
          by (simp add: ut0 un A rv)
      qed
    next
      case (Suc i1)
      then have i1: "i1 < d" using i by simp
      show ?thesis
      proof (cases j)
        case 0
        have z: "(\<Sum>l<d. ut U (Suc l) i * ut U (Suc l) 0) = 0" by (simp add: ut_first_col)
        show ?thesis using z p0 i1 Ai0[OF i1] unfolding sum_shift Suc 0
          by (simp add: ut0 un)
      next
        case (Suc j1)
        then have j1: "j1 < d" using j by simp
        have "(\<Sum>l<d. ut U (Suc l) (Suc i1) * ut U (Suc l) (Suc j1)) = (\<Sum>l<d. ut U1 l i1 * ut U1 l j1)"
          by (intro sum.cong refl) (simp add: utS)
        then show ?thesis using i1 j1 unfolding sum_shift Suc \<open>i = Suc i1\<close>
          by (simp add: ut0 U1p rest_n uu)
      qed
    qed
  qed
  show ?case using cA Um Ud Up by (auto simp: upper_factor_def)
qed

lemma nth_unit_vec: "i < n \<Longrightarrow> unit_vec n j ! i = (if i = j then 1 else 0)"
  by (simp add: unit_vec_def)

lemma lapack_ref_contract: "lapack_contract lapack_ref d"
  unfolding lapack_contract_def
proof (intro allI impI)
  fix A assume A: "spd d A"
  have m: "is_matrix d d A" using A by (rule spd_props)
  then have lA: "length A = d" by (simp add: is_matrix_iff)
  from chol_ok[OF A] obtain U where c: "chol A = Inr U" and U: "upper_factor d U A" by blast
  have Um: "is_matrix d d U" and Ud: "\<And>i. i < d \<Longrightarrow> 0 < U ! i ! i"
    using U by (simp_all add: upper_factor_def)
  have lU: "length U = d" using Um by (simp add: is_matrix_iff)
  have Unz: "\<And>i. i < d \<Longrightarrow> U ! i ! i \<noteq> 0" using Ud by fastforce
  have nz: "\<not> zero_on_diagonal U"
    using Unz by (auto simp: zero_on_diagonal_def list_ex_iff lU)
  have f: "cho_factor lapack_ref A = Inr U"
    using m c by (simp add: lapack_ref_def ref_cho_factor_def lA)
  have s: "\<forall>b. length b = d \<longrightarrow> (\<exists>x. cho_solve lapack_ref U b = Inr x \<and> solves d A x b)"
  proof (intro allI impI)
    fix b :: vec assume b: "length b = d"
    have "cho_solve lapack_ref U b = Inr (back_solve U (forward_solve U b))"
      using nz b by (simp add: lapack_ref_def ref_cho_solve_def lU)
    then show "\<exists>x. cho_solve lapack_ref U b = Inr x \<and> solves d A x b"
      using upper_factor_solves[OF U b] by blast
  qed
  define col where "col = (\<lambda>j. back_solve U (forward_solve U (unit_vec d j)))"
  define R where "R = mat_of_fun d d (\<lambda>i j. if i \<le> j then col j ! i else U ! i ! j)"
  define X where "X = mat_of_fun d d (\<lambda>i j. col j ! i)"
  have fn: "find (\<lambda>i. U ! i ! i = 0) [0..<length U] = None"
    using Unz by (auto simp: find_None_iff lU)
  have p: "potri lapack_ref U = (R, 0)"
    unfolding R_def col_def lU[symmetric] by (simp add: lapack_ref_def ref_potri_def fn)
  have cs: "\<And>k. solves d A (col k) (unit_vec d k)"
    unfolding col_def by (rule upper_factor_solves[OF U]) (simp add: unit_vec_def)
  have r: "right_inverse d A X"
    unfolding right_inverse_def
  proof (intro conjI allI impI)
    show "is_matrix d d X" by (simp add: X_def)
  next
    fix i k assume i: "i < d" and k: "k < d"
    have "(\<Sum>j<d. A ! i ! j * X ! j ! k) = (\<Sum>j<d. A ! i ! j * col k ! j)"
      using k by (intro sum.cong refl) (simp add: X_def)
    also have "\<dots> = unit_vec d k ! i" using cs[of k] i by (simp add: solves_def)
    finally show "(\<Sum>j<d. A ! i ! j * X ! j ! k) = (if i = k then 1 else 0)"
      using i by (simp add: nth_unit_vec)
  qed
  have e: "\<forall>i<d. \<forall>j<d. i \<le> j \<longrightarrow> R ! i ! j = X ! i ! j"
    by (simp add: R_def X_def)
  show "\<exists>U. cho_factor lapack_ref A = Inr U
           \<and> (\<forall>b. length b = d \<longrightarrow> (\<exists>x. cho_solve lapack_ref U b = Inr x \<and> solves d A x b))
           \<and> (\<exists>R X. potri lapack_ref U = (R, 0) \<and> right_inverse d A X
                  \<and> (\<forall>i<d. \<forall>j<d. i \<le> j \<longrightarrow> R ! i ! j = X ! i ! j))"
    using f s p r e by blast
qed

lemma spd_example: "spd 2 [[4, 2], [2, 2]]"
proof (rule spdI)
  show "is_matrix 2 2 [[4, 2], [2, 2]]" by (simp add: is_matrix_def)
next
  fix i j :: nat assume "i < 2" "j < 2"
  then show "[[4, 2], [2, 2 :: real]] ! i ! j = [[4, 2], [2, 2]] ! j ! i"
    by (auto simp: less_Suc_eq numeral_2_eq_2)
next
  fix x :: "nat \<Rightarrow> real" assume "\<exists>i<2. x i \<noteq> 0"
  then have x: "x 0 \<noteq> 0 \<or> x 1 \<noteq> 0" by (auto simp: less_Suc_eq numeral_2_eq_2)
  have "(\<Sum>i<2. \<Sum>j<2. x i * [[4, 2], [2, 2]] ! i ! j * x j)
      = (2 * x 0 + x 1)\<^sup>2 + (x 1)\<^sup>2"
    by (simp add: numeral_2_eq_2 power2_eq_square algebra_simps)
  moreover have "0 < (2 * x 0 + x 1)\<^sup>2 + (x 1)\<^sup>2"
    using x by (cases "x 1 = 0") (auto simp: add_nonneg_pos)
  ultimately show "0 < (\<Sum>i<2. \<Sum>j<2. x i * [[4, 2], [2, 2]] ! i ! j * x j)" by simp
qed

section \<open>The round trip of the converter\<close>

text \<open>
  Claim C1. Let the LAPACK routines keep their documented promises on matrices of
  dimension \<open>d\<close>, in exact arithmetic. For every symmetric positive definite \<open>d\<close> by \<open>d\<close>
  matrix \<open>S\<close> and every vector \<open>m\<close> of length \<open>d\<close>, \<^verbatim>\<open>invert_normal_params\<close> returns a pair
  \<open>(Q, r)\<close>, and \<^verbatim>\<open>invert_normal_params\<close> applied to that pair returns exactly \<open>(S, m)\<close>.
\<close>

theorem invert_normal_params_involution:
  assumes L: "lapack_contract L d" and S: "spd d S" and m: "length m = d"
  shows "\<exists>Q r. invert_normal_params L \<lparr>data = S, layout = lay\<rparr> (Some m) New_array New_array False
              = Inr (Q, Some r)
           \<and> invert_normal_params L Q (Some r) New_array New_array False
              = Inr (\<lparr>data = S, layout = F_contiguous\<rparr>, Some m)"
proof -
  from invert_normal_params_spd[OF L S m, of lay] obtain X x1 where
    c1: "invert_normal_params L \<lparr>data = S, layout = lay\<rparr> (Some m) New_array New_array False
          = Inr (\<lparr>data = X, layout = F_contiguous\<rparr>, Some x1)"
    and X: "right_inverse d S X" and x1: "solves d S x1 m" by blast
  have Xspd: "spd d X" using S X by (rule spd_inverse)
  have lx1: "length x1 = d" using x1 by (simp add: solves_def)
  from invert_normal_params_spd[OF L Xspd lx1, of F_contiguous] obtain Y x2 where
    c2: "invert_normal_params L \<lparr>data = X, layout = F_contiguous\<rparr> (Some x1) New_array New_array False
          = Inr (\<lparr>data = Y, layout = F_contiguous\<rparr>, Some x2)"
    and Y: "right_inverse d X Y" and x2: "solves d X x2 x1" by blast
  have "Y = S" using Xspd Y right_inverse_swap[OF S X] by (rule right_inverse_unique)
  moreover have "x2 = m" using S X x1 x2 m by (rule solve_back)
  ultimately show ?thesis using c1 c2 by simp
qed

theorem invert_normal_params_involution_witness:
  "lapack_contract lapack_ref 2 \<and> spd 2 [[4, 2], [2, 2]] \<and> length [2, 0 :: real] = 2
   \<and> (\<exists>Q r. invert_normal_params lapack_ref \<lparr>data = [[4, 2], [2, 2]], layout = C_contiguous\<rparr>
                (Some [2, 0]) New_array New_array False = Inr (Q, Some r)
           \<and> invert_normal_params lapack_ref Q (Some r) New_array New_array False
              = Inr (\<lparr>data = [[4, 2], [2, 2]], layout = F_contiguous\<rparr>, Some [2, 0]))"
proof -
  have h3: "length [2, 0 :: real] = 2" by simp
  from invert_normal_params_involution[OF lapack_ref_contract spd_example h3, of C_contiguous]
  show ?thesis using lapack_ref_contract[of 2] spd_example by simp
qed

section \<open>Symmetry of the matrix outputs\<close>

lemma feq_same: "feq a a \<longleftrightarrow> a \<noteq> NaN"
  by (simp add: feq_def)

lemma mirrored_iff:
  "mirrored M \<longleftrightarrow> (\<forall>i<length M. length (M ! i) = length M)
      \<and> (\<forall>i<length M. \<forall>j<length M. M ! i ! j = M ! j ! i)"
  by (auto simp: mirrored_def list_all_length)

lemma exactly_symmetric_iff:
  assumes "mirrored M"
  shows "exactly_symmetric M \<longleftrightarrow> \<not> has_nan M"
proof -
  define n where "n = length M"
  have len: "\<forall>i<n. length (M ! i) = n" and sym: "\<forall>i<n. \<forall>j<n. M ! i ! j = M ! j ! i"
    using assms by (simp_all add: mirrored_iff n_def)
  have "exactly_symmetric M \<longleftrightarrow> (\<forall>i<n. \<forall>j<n. M ! i ! j \<noteq> NaN)"
    using len sym by (auto simp: exactly_symmetric_def list_all_length n_def[symmetric] feq_def)
  also have "\<dots> \<longleftrightarrow> \<not> has_nan M"
  proof
    assume a: "\<forall>i<n. \<forall>j<n. M ! i ! j \<noteq> NaN"
    show "\<not> has_nan M"
    proof
      assume "has_nan M"
      then obtain r where r: "r \<in> set M" "NaN \<in> set r" by (auto simp: has_nan_def list_ex_iff)
      then obtain i where i: "i < n" "r = M ! i" by (auto simp: in_set_conv_nth n_def)
      then obtain j where "j < n" "M ! i ! j = NaN" using r(2) len by (auto simp: in_set_conv_nth)
      then show False using a i(1) by blast
    qed
  next
    assume b: "\<not> has_nan M"
    show "\<forall>i<n. \<forall>j<n. M ! i ! j \<noteq> NaN"
    proof (intro allI impI notI)
      fix i j assume ij: "i < n" "j < n" "M ! i ! j = NaN"
      have "M ! i \<in> set M" using ij(1) by (simp add: n_def)
      moreover have "NaN \<in> set (M ! i)" using ij len by (metis nth_mem)
      ultimately show False using b by (auto simp: has_nan_def list_ex_iff)
    qed
  qed
  finally show ?thesis .
qed

lemma mirrored_naive:
  assumes "symmetric_mat B"
  shows "mirrored (fadd_flat_stride (ncols B) (fscale B alpha) c)"
proof -
  define n where "n = length B"
  have m: "is_matrix n n B" and s: "\<And>i j. i < n \<Longrightarrow> j < n \<Longrightarrow> B ! i ! j = B ! j ! i"
    using assms by (simp_all add: symmetric_mat_iff n_def)
  have nc: "ncols B = n" using m by (rule ncols_square)
  note sc = fscale_props[OF m, where c = alpha]
  note af = fadd_flat_stride_props[OF sc(1) sc(2), where c = c]
  show ?thesis unfolding mirrored_iff nc af(1) using af(2,3) sc(3) s by auto
qed

lemma broadcast_symmetric:
  assumes "symmetric_mat Pm" "broadcast_to d d Pm = Some Pb"
  shows "is_matrix d d Pb" and "\<And>i j. i < d \<Longrightarrow> j < d \<Longrightarrow> Pb ! i ! j = Pb ! j ! i"
proof -
  define k where "k = length Pm"
  have m: "is_matrix k k Pm" and s: "\<And>i j. i < k \<Longrightarrow> j < k \<Longrightarrow> Pm ! i ! j = Pm ! j ! i"
    using assms(1) by (simp_all add: symmetric_mat_iff k_def)
  have nr: "nrows Pm = k" by (simp add: nrows_def k_def)
  have nc: "ncols Pm = k" using m by (rule ncols_square)
  have c: "k = d \<or> k = 1" and Pb: "Pb = mat_of_fun d d (\<lambda>i j. Pm ! (if k = 1 then 0 else i) ! (if k = 1 then 0 else j))"
    using assms(2) unfolding broadcast_to_def nr nc by (auto split: if_splits)
  show "is_matrix d d Pb" unfolding Pb by simp
  fix i j assume ij: "i < d" "j < d"
  have "(if k = 1 then 0 else i) < k" "(if k = 1 then 0 else j) < k" using c ij by auto
  from s[OF this] show "Pb ! i ! j = Pb ! j ! i" using ij by (cases "k = 1") (simp_all add: Pb)
qed

lemma mirrored_informed:
  assumes "symmetric_mat B" "is_matrix (length B) (length B) Pb"
    and "\<And>i j. i < length B \<Longrightarrow> j < length B \<Longrightarrow> Pb ! i ! j = Pb ! j ! i"
  shows "mirrored (fadd_elem (fscale B alpha) (fscale_by beta Pb))"
proof -
  define n where "n = length B"
  have m: "is_matrix n n B" and s: "\<And>i j. i < n \<Longrightarrow> j < n \<Longrightarrow> B ! i ! j = B ! j ! i"
    using assms(1) by (simp_all add: symmetric_mat_iff n_def)
  have mp: "is_matrix n n Pb" using assms(2) by (simp add: n_def)
  note sc = fscale_props[OF m, where c = alpha]
  note sp = fscale_by_props[OF mp, where c = beta]
  note ae = fadd_elem_props[OF sc(1) sp(1) sc(2) sp(2)]
  show ?thesis unfolding mirrored_iff ae(1) using ae(2,3) sc(3) sp(3) s assms(3) by (auto simp: n_def)
qed

lemma olse_output:
  assumes "olse L S n P out = Inr E"
  shows "\<exists>Q r B alpha c beta.
      invert_normal_params L Q None In_place New_array False = Inr (B, r)
      \<and> (case P of None \<Rightarrow> entries E = fadd_flat_stride (ncols (data B)) (fscale (data B) alpha) c
          | Some Pm \<Rightarrow> (\<exists>Pb. broadcast_to (nrows (data B)) (ncols (data B)) Pm = Some Pb
              \<and> entries E = fadd_elem (fscale (data B) alpha) (fscale_by beta Pb)))"
  using assms unfolding olse_def olse_shrink_def
  by (auto simp: bindE_def Let_def split: sum.splits if_splits prod.splits option.splits) blast+

lemma invert_in_place_spd:
  assumes L: "lapack_contract L d" and A: "spd d A"
  shows "\<exists>X. invert_normal_params L \<lparr>data = A, layout = F_contiguous\<rparr> None In_place ob False
              = Inr (\<lparr>data = X, layout = F_contiguous\<rparr>, None)
           \<and> right_inverse d A X"
proof -
  have "\<exists>U. cho_factor L A = Inr U
           \<and> (\<forall>b. length b = d \<longrightarrow> (\<exists>x. cho_solve L U b = Inr x \<and> solves d A x b))
           \<and> (\<exists>R X. potri L U = (R, 0) \<and> right_inverse d A X
                  \<and> (\<forall>i<d. \<forall>j<d. i \<le> j \<longrightarrow> R ! i ! j = X ! i ! j))"
    using L[unfolded lapack_contract_def, rule_format, OF A] .
  then obtain U R X where U: "cho_factor L A = Inr U"
    and R: "potri L U = (R, 0)" "right_inverse d A X"
      "\<forall>i<d. \<forall>j<d. i \<le> j \<longrightarrow> R ! i ! j = X ! i ! j"
    by (elim exE conjE)
  have c: "copy_triu_to_tril d R = X" using A R(2,3) by (rule copy_triu_is_inverse)
  have n: "nrows A = d" using spd_props(1)[OF A] by (rule nrows_is_matrix)
  have "invert_normal_params L \<lparr>data = A, layout = F_contiguous\<rparr> None In_place ob False
      = Inr (\<lparr>data = X, layout = F_contiguous\<rparr>, None)"
    unfolding invert_normal_params_def prepare_out_def prepare_out_vec_def
    by (simp add: U R(1) n c)
  then show ?thesis using R(2) by blast
qed

lemma olse_returns:
  assumes L: "lapack_contract L d" and A: "spd d A" and d: "1 < d" and n: "n \<noteq> 0"
    and P: "case P of None \<Rightarrow> True | Some Pm \<Rightarrow> is_matrix d d Pm"
  shows "\<exists>E. olse L \<lparr>data = A, layout = lay\<rparr> n P New_array = Inr E"
proof -
  from invert_in_place_spd[OF L A, of New_array] obtain X where
    inv: "invert_normal_params L \<lparr>data = A, layout = F_contiguous\<rparr> None In_place New_array False
              = Inr (\<lparr>data = X, layout = F_contiguous\<rparr>, None)"
    and X: "right_inverse d A X" by blast
  have mA: "is_matrix d d A" using A by (rule spd_props)
  have nr: "nrows A = d" using mA by (rule nrows_is_matrix)
  have nc: "ncols A = d" using mA by (rule ncols_square)
  have fa: "farray \<lparr>data = A, layout = F_contiguous\<rparr>" using d by (simp add: farray_def nr nc)
  have mX: "is_matrix d d X" using X by (rule right_inverse_props)
  have nX: "nrows X = d" "ncols X = d" using mX by (simp_all add: nrows_is_matrix ncols_square)
  have O: "olse L \<lparr>data = A, layout = lay\<rparr> n P New_array
      = olse_shrink d n P \<lparr>data = X, layout = F_contiguous\<rparr>"
    unfolding olse_def prepare_out_def using fa inv by (simp add: nr)
  show ?thesis
  proof (cases P)
    case None
    then show ?thesis unfolding O using n by (simp add: olse_shrink_def Let_def)
  next
    case (Some Pm)
    then have "is_matrix d d Pm" using P by simp
    then have "broadcast_to d d Pm = Some Pm" using d by (intro broadcast_to_same) simp_all
    then show ?thesis unfolding O using n Some by (simp add: olse_shrink_def Let_def nX)
  qed
qed

text \<open>
  Claim C8, as amended. Whenever \<^verbatim>\<open>invert_normal_params\<close> returns, its matrix output is
  exactly symmetric. Whenever \<^verbatim>\<open>olse\<close> returns, without a prior or with a symmetric prior,
  its output is square and the cells \<open>(i, j)\<close> and \<open>(j, i)\<close> hold the same value, so that
  the test \<^verbatim>\<open>out[i][j] == out[j][i]\<close> succeeds for all indices exactly when the output
  holds no \<^verbatim>\<open>nan\<close>. For a symmetric positive definite matrix of dimension \<open>d > 1\<close>, a
  sample count that is not zero and routines of LAPACK that keep their promises, \<^verbatim>\<open>olse\<close>
  returns, without a prior and with a symmetric \<open>d\<close> by \<open>d\<close> prior, and so does
  \<^verbatim>\<open>invert_normal_params\<close>.
\<close>

theorem outputs_exactly_symmetric:
  "(invert_normal_params L A b out_A out_b cho_form = Inr (Q, r) \<longrightarrow> symmetric_mat (data Q))
   \<and> (olse L S n None out = Inr E
        \<longrightarrow> mirrored (entries E) \<and> (exactly_symmetric (entries E) \<longleftrightarrow> \<not> has_nan (entries E)))
   \<and> (symmetric_mat Pm \<and> olse L S n (Some Pm) out = Inr E
        \<longrightarrow> mirrored (entries E) \<and> (exactly_symmetric (entries E) \<longleftrightarrow> \<not> has_nan (entries E)))
   \<and> (lapack_contract L d \<and> spd d V \<and> 1 < d \<and> n \<noteq> 0
        \<longrightarrow> (\<exists>X. invert_normal_params L \<lparr>data = V, layout = lay\<rparr> None New_array New_array False = Inr X)
          \<and> (\<exists>X. olse L \<lparr>data = V, layout = lay\<rparr> n None New_array = Inr X)
          \<and> (symmetric_mat Pm \<and> length Pm = d
               \<longrightarrow> (\<exists>X. olse L \<lparr>data = V, layout = lay\<rparr> n (Some Pm) New_array = Inr X)))"
proof (intro conjI impI)
  assume "invert_normal_params L A b out_A out_b cho_form = Inr (Q, r)"
  then show "symmetric_mat (data Q)" by (rule invert_normal_params_symmetric)
next
  assume "olse L S n None out = Inr E"
  from olse_output[OF this] obtain Q0 r0 B alpha c where
    "invert_normal_params L Q0 None In_place New_array False = Inr (B, r0)"
    "entries E = fadd_flat_stride (ncols (data B)) (fscale (data B) alpha) c" by auto
  then have m: "mirrored (entries E)"
    using invert_normal_params_symmetric mirrored_naive by metis
  then show "mirrored (entries E)" "exactly_symmetric (entries E) \<longleftrightarrow> \<not> has_nan (entries E)"
    using exactly_symmetric_iff by blast+
next
  assume a: "symmetric_mat Pm \<and> olse L S n (Some Pm) out = Inr E"
  from olse_output[of L S n "Some Pm" out E] a obtain Q0 r0 B alpha beta Pb where
    i: "invert_normal_params L Q0 None In_place New_array False = Inr (B, r0)"
    and b: "broadcast_to (nrows (data B)) (ncols (data B)) Pm = Some Pb"
    and e: "entries E = fadd_elem (fscale (data B) alpha) (fscale_by beta Pb)" by auto
  have sB: "symmetric_mat (data B)" using i by (rule invert_normal_params_symmetric)
  then have mB: "is_matrix (length (data B)) (length (data B)) (data B)" by (simp add: symmetric_mat_iff)
  have nn: "nrows (data B) = length (data B)" "ncols (data B) = length (data B)"
    using mB by (simp_all add: nrows_def ncols_square)
  note bs = broadcast_symmetric[OF conjunct1[OF a] b[unfolded nn]]
  have m: "mirrored (entries E)" unfolding e using sB bs by (rule mirrored_informed)
  then show "mirrored (entries E)" "exactly_symmetric (entries E) \<longleftrightarrow> \<not> has_nan (entries E)"
    using exactly_symmetric_iff by blast+
next
  assume v: "lapack_contract L d \<and> spd d V \<and> 1 < d \<and> n \<noteq> 0"
  then have L: "lapack_contract L d" and V: "spd d V" and d: "1 < d" and n: "n \<noteq> 0" by simp_all
  have "\<exists>U. cho_factor L V = Inr U
           \<and> (\<forall>b. length b = d \<longrightarrow> (\<exists>x. cho_solve L U b = Inr x \<and> solves d V x b))
           \<and> (\<exists>R X. potri L U = (R, 0) \<and> right_inverse d V X
                  \<and> (\<forall>i<d. \<forall>j<d. i \<le> j \<longrightarrow> R ! i ! j = X ! i ! j))"
    using L[unfolded lapack_contract_def, rule_format, OF V] .
  then obtain U R where U: "cho_factor L V = Inr U" and R: "potri L U = (R, 0)"
    by (elim exE conjE)
  show "\<exists>X. invert_normal_params L \<lparr>data = V, layout = lay\<rparr> None New_array New_array False = Inr X"
    unfolding invert_normal_params_def prepare_out_def by (simp add: U R)
  show "\<exists>X. olse L \<lparr>data = V, layout = lay\<rparr> n None New_array = Inr X"
    using olse_returns[OF L V d n, of None lay] by simp
next
  assume v: "lapack_contract L d \<and> spd d V \<and> 1 < d \<and> n \<noteq> 0"
    and p: "symmetric_mat Pm \<and> length Pm = d"
  then have L: "lapack_contract L d" and V: "spd d V" and d: "1 < d" and n: "n \<noteq> 0" by simp_all
  have "is_matrix d d Pm" using p by (auto simp: symmetric_mat_iff)
  then show "\<exists>X. olse L \<lparr>data = V, layout = lay\<rparr> n (Some Pm) New_array = Inr X"
    using olse_returns[OF L V d n, of "Some Pm" lay] by simp
qed

theorem outputs_exactly_symmetric_witness:
  "invert_normal_params lapack_ref \<lparr>data = [[4, 2], [2, 2]], layout = F_contiguous\<rparr> (Some [2, 0])
       New_array New_array False
     = Inr (\<lparr>data = [[1/2, -1/2], [-1/2, 1]], layout = F_contiguous\<rparr>, Some [1, -1])
   \<and> symmetric_mat [[1/2, -1/2], [-1/2, 1]]
   \<and> olse lapack_ref \<lparr>data = [[4, 2], [2, 2]], layout = F_contiguous\<rparr> 10 None New_array
     = Inr \<lparr>entries = [[Fin (49/100), Fin (-22/100)], [Fin (-22/100), Fin (71/100)]], order = F_contiguous\<rparr>
   \<and> symmetric_mat [[1/2, 0], [0, 1/2]] \<and> length [[1/2, 0], [0, 1/2 :: real]] = 2
   \<and> olse lapack_ref \<lparr>data = [[4, 2], [2, 2]], layout = F_contiguous\<rparr> 10 (Some [[1/2, 0], [0, 1/2]]) New_array
     = Inr \<lparr>entries = [[Fin (49/100), Fin (-22/100)], [Fin (-22/100), Fin (71/100)]], order = F_contiguous\<rparr>
   \<and> lapack_contract lapack_ref 2 \<and> spd 2 [[4, 2], [2, 2]] \<and> (1::nat) < 2 \<and> (10::int) \<noteq> 0
   \<and> mirrored [[Fin (49/100), Fin (-22/100)], [Fin (-22/100), Fin (71/100)]]
   \<and> exactly_symmetric [[Fin (49/100), Fin (-22/100)], [Fin (-22/100), Fin (71/100)]]"
proof -
  have p: "symmetric_mat [[1/2, 0], [0, 1/2]]"
    by (simp add: symmetric_mat_def is_matrix_def upt_0_2)
  have nn: "\<not> has_nan [[Fin (49/100), Fin (-22/100)], [Fin (-22/100), Fin (71/100)]]"
    by (simp add: has_nan_def)
  note t = outputs_exactly_symmetric[of lapack_ref
      "\<lparr>data = [[4, 2], [2, 2]], layout = F_contiguous\<rparr>" "Some [2, 0]" New_array New_array False
      "\<lparr>data = [[1/2, -1/2], [-1/2, 1]], layout = F_contiguous\<rparr>" "Some [1, -1]"
      "\<lparr>data = [[4, 2], [2, 2]], layout = F_contiguous\<rparr>" 10 New_array
      "\<lparr>entries = [[Fin (49/100), Fin (-22/100)], [Fin (-22/100), Fin (71/100)]], order = F_contiguous\<rparr>"
      "[[1/2, 0], [0, 1/2]]" 2 "[[4, 2], [2, 2]]" F_contiguous]
  show ?thesis
    using t p nn invert_example olse_naive_example olse_informed_example lapack_ref_contract[of 2]
      spd_example
    by simp
qed

text \<open>
  The claim as it stands fails for \<^verbatim>\<open>olse\<close>. For the sample covariance \<open>2 I\<close> of dimension 2
  and ten samples the inverse is \<open>I / 2\<close>, the denominator \<^verbatim>\<open>f2 - tr2/d\<close> is zero, \<^verbatim>\<open>alpha\<close>
  is \<^verbatim>\<open>-inf\<close> and \<^verbatim>\<open>beta\<close> is \<^verbatim>\<open>inf\<close>: every entry of the output is \<^verbatim>\<open>nan\<close>, and \<^verbatim>\<open>nan\<close> is
  not equal to itself.
\<close>

theorem outputs_exactly_symmetric_counterexample:
  "spd 2 [[2, 0], [0, 2]]
   \<and> olse lapack_ref \<lparr>data = [[2, 0], [0, 2]], layout = F_contiguous\<rparr> 10 None New_array
       = Inr \<lparr>entries = [[NaN, NaN], [NaN, NaN]], order = F_contiguous\<rparr>
   \<and> \<not> exactly_symmetric [[NaN, NaN], [NaN, NaN]]"
proof -
  have s: "spd 2 [[2, 0], [0, 2]]"
  proof (rule spdI)
    show "is_matrix 2 2 [[2, 0], [0, 2]]" by (simp add: is_matrix_def)
  next
    fix i j :: nat assume "i < 2" "j < 2"
    then show "[[2, 0], [0, 2 :: real]] ! i ! j = [[2, 0], [0, 2]] ! j ! i"
      by (auto simp: less_Suc_eq numeral_2_eq_2)
  next
    fix x :: "nat \<Rightarrow> real" assume "\<exists>i<2. x i \<noteq> 0"
    then have x: "x 0 \<noteq> 0 \<or> x 1 \<noteq> 0" by (auto simp: less_Suc_eq numeral_2_eq_2)
    have "(\<Sum>i<2. \<Sum>j<2. x i * [[2, 0], [0, 2]] ! i ! j * x j) = 2 * (x 0)\<^sup>2 + 2 * (x 1)\<^sup>2"
      by (simp add: numeral_2_eq_2 power2_eq_square algebra_simps)
    moreover have "0 < 2 * (x 0)\<^sup>2 + 2 * (x 1)\<^sup>2"
      using x by (cases "x 1 = 0") (auto simp: add_nonneg_pos add_pos_nonneg)
    ultimately show "0 < (\<Sum>i<2. \<Sum>j<2. x i * [[2, 0], [0, 2]] ! i ! j * x j)" by simp
  qed
  have e: "\<not> exactly_symmetric [[NaN, NaN], [NaN, NaN]]"
    by (simp add: exactly_symmetric_def feq_def upt_0_2)
  show ?thesis using s olse_nan_example e by simp
qed

end
